theory Spec2Isabelle
  imports Complex_Main "HOL-Library.Option_ord"
begin

section \<open>Errors and tensor indexing\<close>

text \<open>
  The exceptions of the Python source that the model distinguishes. Every raise of the
  modelled code is a value \<open>Inl e\<close> of the result type \<open>py_error + 'a\<close>.
\<close>

datatype py_error = IndexError | UnboundLocalError | RuntimeError | ZeroDivisionError
  | AttributeError | TypeError

text \<open>
  Indexing one dimension of a tensor with an integer: a negative index counts from the
  end, an index outside \<open>-n..n-1\<close> raises.
\<close>

definition index_t :: "'a list \<Rightarrow> int \<Rightarrow> py_error + 'a" where
  "index_t xs i =
     (let n = int (length xs); j = (if i < 0 then i + n else i)
      in if 0 \<le> j \<and> j < n then Inr (xs ! nat j) else Inl IndexError)"

text \<open>Running a list of fallible computations: the first error wins.\<close>

fun seq_e :: "(py_error + 'a) list \<Rightarrow> py_error + 'a list" where
  "seq_e [] = Inr []"
| "seq_e (Inl e # rs) = Inl e"
| "seq_e (Inr v # rs) = (case seq_e rs of Inl e \<Rightarrow> Inl e | Inr vs \<Rightarrow> Inr (v # vs))"

section \<open>Tour length evaluator (\<open>compute_tour_length\<close>)\<close>

text \<open>
  A city is a point of the plane; \<open>x\<close> of size \<open>(bsz, nb_nodes, 2)\<close> is a list of rows of
  points, \<open>tour\<close> of size \<open>(bsz, nb_nodes)\<close> a list of rows of indices. Coordinates are
  real numbers (the rounding of 32-bit floats is not modelled). \<open>nb_nodes\<close> is
  \<open>x.shape[1]\<close>, passed explicitly because a list of rows does not record it when the
  batch is empty.
\<close>

type_synonym point = "real \<times> real"

text \<open>\<open>(c - p).pow(2).sum(dim=1).sqrt()\<close> for one batch row.\<close>

definition dist :: "point \<Rightarrow> point \<Rightarrow> real" where
  "dist c p = sqrt ((fst c - fst p)\<^sup>2 + (snd c - snd p)\<^sup>2)"

text \<open>\<open>tour[:, i]\<close>: column \<open>i\<close> of the tour tensor.\<close>

definition column :: "int list list \<Rightarrow> nat \<Rightarrow> py_error + int list" where
  "column tour i = seq_e (map (\<lambda>tr. index_t tr (int i)) tour)"

text \<open>
  \<open>x[arange_vec, col, :]\<close>: the city \<open>col[b]\<close> of every batch row \<open>b\<close>. The two index
  tensors \<open>arange_vec\<close> (of size \<open>bsz\<close>) and \<open>col\<close> are broadcast together: a single
  entry on either side is repeated, any other difference of sizes raises.
\<close>

definition gather_cities :: "point list list \<Rightarrow> int list \<Rightarrow> py_error + point list" where
  "gather_cities x col =
     (if length col = length x then seq_e (map2 index_t x col)
      else if length col = 1 then seq_e (map (\<lambda>xs. index_t xs (col ! 0)) x)
      else if length x = 1 then seq_e (map (index_t (x ! 0)) col)
      else Inl IndexError)"

text \<open>
  \<open>L += d\<close>: the in-place sum keeps the size of \<open>L\<close>; \<open>d\<close> needs that size or a single
  entry, which is then added to every entry of \<open>L\<close>.
\<close>

definition add_inplace :: "real list \<Rightarrow> real list \<Rightarrow> py_error + real list" where
  "add_inplace L d =
     (if length d = length L then Inr (map2 (+) L d)
      else if length d = 1 then Inr (map (\<lambda>l. l + d ! 0) L)
      else Inl RuntimeError)"

text \<open>
  The loop \<open>for i in range(1, nb_nodes)\<close>. The state is \<open>current_cities\<close>
  (\<open>None\<close> while the variable is unassigned), \<open>previous_cities\<close> and \<open>L\<close>.
\<close>

fun length_loop :: "point list list \<Rightarrow> int list list \<Rightarrow> nat list \<Rightarrow>
    point list option \<Rightarrow> point list \<Rightarrow> real list \<Rightarrow>
    py_error + (point list option \<times> real list)" where
  "length_loop x tour [] cur prev L = Inr (cur, L)"
| "length_loop x tour (i # is) cur prev L =
     (case column tour i of Inl e \<Rightarrow> Inl e | Inr col \<Rightarrow>
      (case gather_cities x col of Inl e \<Rightarrow> Inl e | Inr current_cities \<Rightarrow>
      (case add_inplace L (map2 dist current_cities prev) of Inl e \<Rightarrow> Inl e | Inr L' \<Rightarrow>
         length_loop x tour is (Some current_cities) current_cities L')))"

definition compute_tour_length ::
    "nat \<Rightarrow> point list list \<Rightarrow> int list list \<Rightarrow> py_error + real list" where
  "compute_tour_length nb_nodes x tour =
     (case column tour 0 of Inl e \<Rightarrow> Inl e | Inr col0 \<Rightarrow>
      (case gather_cities x col0 of Inl e \<Rightarrow> Inl e | Inr first_cities \<Rightarrow>
      (case length_loop x tour [1..<nb_nodes] None first_cities
              (replicate (length x) 0) of
         Inl e \<Rightarrow> Inl e
       | Inr (None, L) \<Rightarrow> Inl UnboundLocalError
       | Inr (Some current_cities, L) \<Rightarrow>
           add_inplace L (map2 dist current_cities first_cities))))"

text \<open>
  Well-shaped inputs: every row of \<open>x\<close> has \<open>nb_nodes\<close> cities, \<open>tour\<close> has one row of
  \<open>nb_nodes\<close> indices per row of \<open>x\<close>, and every index addresses a city.
\<close>

definition wf_tour_input :: "nat \<Rightarrow> point list list \<Rightarrow> int list list \<Rightarrow> bool" where
  "wf_tour_input nb_nodes x tour \<longleftrightarrow>
     length tour = length x \<and>
     list_all (\<lambda>xs. length xs = nb_nodes) x \<and>
     list_all (\<lambda>tr. length tr = nb_nodes \<and>
                 list_all (\<lambda>c. - int nb_nodes \<le> c \<and> c < int nb_nodes) tr) tour"

section \<open>Decoder layer with incremental self-attention cache\<close>

text \<open>
  \<open>AutoRegressiveDecoderLayer\<close>. Embedding vectors are values of an abstract type \<open>'v\<close>
  (their \<open>dim_emb\<close> coordinates play no role in the bookkeeping), so a tensor of size
  \<open>(rows, len, dim_emb)\<close> is a list of rows, each a list of vectors. \<open>K_sa\<close> and \<open>V_sa\<close>
  are \<open>None\<close> as in the source until the first call of \<open>forward\<close>. \<open>segm_len\<close> is the
  optional window. The learned maps are fields of the record: \<open>Wk_selfatt\<close> and
  \<open>Wv_selfatt\<close> project the query to the new key and value; \<open>attend\<close> stands for the
  rest of \<open>forward\<close> on one row (self-attention over the cache, cross-attention with the
  visited-mask over the row's slice \<open>'c\<close> of the encoder keys and values, MLP, norms).
\<close>

record ('v, 'c) decoder_layer =
  segm_len :: "int option"
  K_sa :: "'v list list option"
  V_sa :: "'v list list option"
  Wk_selfatt :: "'v \<Rightarrow> 'v"
  Wv_selfatt :: "'v \<Rightarrow> 'v"
  attend :: "'v \<Rightarrow> 'v list \<Rightarrow> 'v list \<Rightarrow> 'c \<Rightarrow> 'c \<Rightarrow> bool list \<Rightarrow> 'v"

definition reset_selfatt_keys_values ::
    "('v, 'c) decoder_layer \<Rightarrow> ('v, 'c) decoder_layer" where
  "reset_selfatt_keys_values lay = lay\<lparr>K_sa := None, V_sa := None\<rparr>"

text \<open>
  The Python slice \<open>xs[s:]\<close>: a negative start counts from the end and is clamped at 0,
  a start beyond the end gives the empty list. In particular \<open>xs[-0:]\<close> is \<open>xs[0:]\<close>,
  the whole list.
\<close>

definition slice_from :: "int \<Rightarrow> 'a list \<Rightarrow> 'a list" where
  "slice_from s xs =
     (let n = int (length xs); st = (if s < 0 then max (s + n) 0 else min s n)
      in drop (nat st) xs)"

text \<open>
  \<open>torch.cat([K_sa, k_sa], dim=1)\<close>, or \<open>k_sa\<close> itself while the cache is \<open>None\<close>;
  concatenation along dimension 1 needs equal batch sizes.
\<close>

definition cat_cache :: "'v list list option \<Rightarrow> 'v list list \<Rightarrow> py_error + 'v list list" where
  "cat_cache C k =
     (case C of None \<Rightarrow> Inl TypeError
      | Some K \<Rightarrow> if length K \<noteq> length k then Inl RuntimeError else Inr (map2 (@) K k))"

text \<open>\<open>K_sa[:, -segm_len:, :]\<close> when a window is configured.\<close>

definition truncate_cache :: "int option \<Rightarrow> 'v list list \<Rightarrow> 'v list list" where
  "truncate_cache sl K = (case sl of None \<Rightarrow> K | Some s \<Rightarrow> map (slice_from (- s)) K)"

text \<open>
  \<open>forward(h_t, K_att, V_att, mask)\<close>: returns the layer with its updated cache and the
  transformed queries, one per row (\<open>msk\<close> is the source's \<open>mask\<close>). The
  cross-attention operands must have one row per query.
\<close>

definition layer_forward :: "('v, 'c) decoder_layer \<Rightarrow> 'v list \<Rightarrow> 'c list \<Rightarrow> 'c list \<Rightarrow>
    bool list list \<Rightarrow> py_error + (('v, 'c) decoder_layer \<times> 'v list)" where
  "layer_forward lay h_t K_att V_att msk =
     (let k_sa = map (\<lambda>h. [Wk_selfatt lay h]) h_t;
          v_sa = map (\<lambda>h. [Wv_selfatt lay h]) h_t
      in case (if K_sa lay = None then Inr k_sa else cat_cache (K_sa lay) k_sa) of
           Inl e \<Rightarrow> Inl e
         | Inr K \<Rightarrow>
          (case (if K_sa lay = None then Inr v_sa else cat_cache (V_sa lay) v_sa) of
             Inl e \<Rightarrow> Inl e
           | Inr V \<Rightarrow>
              (let K' = truncate_cache (segm_len lay) K;
                   V' = truncate_cache (segm_len lay) V;
                   lay' = lay\<lparr>K_sa := Some K', V_sa := Some V'\<rparr>
               in if length K_att \<noteq> length h_t \<or> length V_att \<noteq> length h_t
                     \<or> length msk \<noteq> length h_t
                  then Inl RuntimeError
                  else Inr (lay', map (\<lambda>b. attend lay (h_t ! b) (K' ! b) (V' ! b)
                                  (K_att ! b) (V_att ! b) (msk ! b)) [0..<length h_t]))))"

text \<open>\<open>torch.repeat_interleave(K, B, dim=0)\<close>: every row \<open>B\<close> times, contiguously.\<close>

definition repeat_interleave :: "nat \<Rightarrow> 'a list \<Rightarrow> 'a list" where
  "repeat_interleave B xs = concat (map (replicate B) xs)"

definition repeat_selfatt_keys_values ::
    "('v, 'c) decoder_layer \<Rightarrow> nat \<Rightarrow> py_error + ('v, 'c) decoder_layer" where
  "repeat_selfatt_keys_values lay B =
     (case K_sa lay of None \<Rightarrow> Inl TypeError | Some K \<Rightarrow>
      (case V_sa lay of None \<Rightarrow> Inl TypeError | Some V \<Rightarrow>
         Inr (lay\<lparr>K_sa := Some (repeat_interleave B K),
                   V_sa := Some (repeat_interleave B V)\<rparr>)))"

text \<open>
  \<open>reorder_selfatt_keys_values(t, idx_top_beams)\<close>. \<open>key_len\<close> is computed from
  \<open>segm_len\<close> and \<open>t\<close>. \<open>view(bsz, B2, key_len, dim_emb)\<close> regroups the cache: it needs
  the same number of elements and no negative size, and element \<open>[b][j]\<close> of the view is
  the \<open>(b * B2 + j)\<close>-th block of \<open>key_len\<close> vectors of the flattened cache. The loop over
  \<open>b\<close> then gathers, for every new beam position, the block of the source beam; the final
  \<open>view(bsz*B, key_len, dim_emb)\<close> flattens the two leading dimensions again.
\<close>

definition key_len_of :: "int option \<Rightarrow> nat \<Rightarrow> int" where
  "key_len_of sl t = (case sl of Some s \<Rightarrow> min s (int t + 1) | None \<Rightarrow> int t + 1)"

definition view4 :: "nat \<Rightarrow> nat \<Rightarrow> int \<Rightarrow> 'v list list \<Rightarrow> py_error + 'v list list list" where
  "view4 bsz B2 key_len K =
     (if key_len < 0 \<or> int (length (concat K)) \<noteq> int bsz * int B2 * key_len
      then Inl RuntimeError
      else Inr (map (\<lambda>b. map (\<lambda>j. take (nat key_len)
                     (drop ((b * B2 + j) * nat key_len) (concat K))) [0..<B2]) [0..<bsz]))"

definition gather_beams :: "'a list list \<Rightarrow> nat list list \<Rightarrow> py_error + 'a list list" where
  "gather_beams tmp idx =
     seq_e (map2 (\<lambda>rows ids. seq_e (map (\<lambda>i. index_t rows (int i)) ids)) tmp idx)"

definition reorder_cache :: "nat \<Rightarrow> nat \<Rightarrow> int \<Rightarrow> nat list list \<Rightarrow> 'v list list \<Rightarrow>
    py_error + 'v list list" where
  "reorder_cache bsz B2 key_len idx K =
     (case view4 bsz B2 key_len K of Inl e \<Rightarrow> Inl e | Inr K_tmp \<Rightarrow>
      (case gather_beams K_tmp idx of Inl e \<Rightarrow> Inl e | Inr G \<Rightarrow> Inr (concat G)))"

definition reorder_selfatt_keys_values ::
    "('v, 'c) decoder_layer \<Rightarrow> nat \<Rightarrow> nat list list \<Rightarrow> py_error + ('v, 'c) decoder_layer" where
  "reorder_selfatt_keys_values lay t idx_top_beams =
     (let key_len = key_len_of (segm_len lay) t; bsz = length idx_top_beams
      in case K_sa lay of None \<Rightarrow> Inl AttributeError | Some K \<Rightarrow>
         if bsz = 0 then Inl ZeroDivisionError
         else let B2 = length K div bsz
              in (case reorder_cache bsz B2 key_len idx_top_beams K of
                    Inl e \<Rightarrow> Inl e
                  | Inr K' \<Rightarrow>
                   (case V_sa lay of None \<Rightarrow> Inl AttributeError | Some V \<Rightarrow>
                    (case reorder_cache bsz B2 key_len idx_top_beams V of
                       Inl e \<Rightarrow> Inl e
                     | Inr V' \<Rightarrow> Inr (lay\<lparr>K_sa := Some K', V_sa := Some V'\<rparr>)))))"

text \<open>
  A decode of one layer: the calls of \<open>forward\<close> made since the last reset, each with
  its operands.
\<close>

type_synonym ('v, 'c) forward_args = "'v list \<times> 'c list \<times> 'c list \<times> bool list list"

fun run_forward :: "('v, 'c) decoder_layer \<Rightarrow> ('v, 'c) forward_args list \<Rightarrow>
    py_error + ('v, 'c) decoder_layer" where
  "run_forward lay [] = Inr lay"
| "run_forward lay ((h_t, K_att, V_att, msk) # calls) =
     (case layer_forward lay h_t K_att V_att msk of Inl e \<Rightarrow> Inl e
      | Inr (lay', out) \<Rightarrow> run_forward lay' calls)"

text \<open>
  The cache length the specification states for step \<open>t\<close> (0-indexed):
  \<open>min(t+1, window)\<close> if a window is configured, else \<open>t+1\<close>.
\<close>

definition cache_length_spec :: "int option \<Rightarrow> nat \<Rightarrow> int" where
  "cache_length_spec sl t = (case sl of Some w \<Rightarrow> min (int t + 1) w | None \<Rightarrow> int t + 1)"

text \<open>All rows of both caches have length \<open>n\<close>.\<close>

definition cache_rows_length :: "('v, 'c) decoder_layer \<Rightarrow> int \<Rightarrow> bool" where
  "cache_rows_length lay n \<longleftrightarrow>
     (case K_sa lay of None \<Rightarrow> False | Some K \<Rightarrow> list_all (\<lambda>r. int (length r) = n) K) \<and>
     (case V_sa lay of None \<Rightarrow> False | Some V \<Rightarrow> list_all (\<lambda>r. int (length r) = n) V)"

text \<open>
  The cache after \<open>j\<close> calls of \<open>forward\<close> since the last reset: \<open>None\<close> before the first
  call, rows of the specified length afterwards.
\<close>

definition cache_inv :: "('v, 'c) decoder_layer \<Rightarrow> nat \<Rightarrow> bool" where
  "cache_inv lay j \<longleftrightarrow>
     (if j = 0 then K_sa lay = None
      else cache_rows_length lay (cache_length_spec (segm_len lay) (j - 1)))"

text \<open>
  A window the slice \<open>[-segm_len:]\<close> implements: none, or at least one entry.
\<close>

definition positive_window :: "int option \<Rightarrow> bool" where
  "positive_window sl \<longleftrightarrow> (case sl of None \<Rightarrow> True | Some s \<Rightarrow> 1 \<le> s)"

text \<open>
  A cache that holds \<open>B2\<close> per-beam sequences of \<open>key_len\<close> entries for each of \<open>bsz\<close>
  batch rows, and a selection \<open>idx\<close> of \<open>B\<close> source beams per batch row.
\<close>

definition wf_beam_cache :: "'v list list \<Rightarrow> nat \<Rightarrow> nat \<Rightarrow> int \<Rightarrow> bool" where
  "wf_beam_cache K bsz B2 key_len \<longleftrightarrow>
     0 \<le> key_len \<and> length K = bsz * B2 \<and> list_all (\<lambda>r. int (length r) = key_len) K"

definition wf_beam_idx :: "nat list list \<Rightarrow> nat \<Rightarrow> nat \<Rightarrow> nat \<Rightarrow> bool" where
  "wf_beam_idx idx bsz B B2 \<longleftrightarrow>
     0 < bsz \<and> length idx = bsz \<and>
     list_all (\<lambda>ids. length ids = B \<and> list_all (\<lambda>i. i < B2) ids) idx"

text \<open>
  A concrete layer for evaluation: vectors are natural numbers, the projections add 1
  and 2, and the row output is the query itself.
\<close>

definition example_layer :: "int option \<Rightarrow> (nat, unit) decoder_layer" where
  "example_layer sl =
     \<lparr>segm_len = sl, K_sa = None, V_sa = None, Wk_selfatt = (\<lambda>v. v + 1),
      Wv_selfatt = (\<lambda>v. v + 2), attend = (\<lambda>q K V ka va m. q)\<rparr>"

section \<open>Attention primitive (\<open>myMHA\<close>)\<close>

text \<open>
  \<open>myMHA\<close> on one row of the batch after the split into heads (lines 75 to 85 of the
  source reshape \<open>Q\<close>, \<open>K\<close>, \<open>V\<close> to \<open>bsz*nb_heads\<close> rows and line 91 repeats the mask
  once per head): \<open>q\<close> is the query vector of the row, \<open>K\<close> and \<open>V\<close> its keys and values,
  one vector per position. Numbers are reals. Of the 32-bit floats only the underflow of
  the exponential in the softmax is modelled, which decides whether a weight is exactly
  zero; rounding and overflow are not.
\<close>

definition dot :: "real list \<Rightarrow> real list \<Rightarrow> real" where
  "dot u v = sum_list (map2 (*) u v)"

text \<open>\<open>torch.bmm(Q, K.transpose(1,2)) / Q.size(-1)**0.5\<close>\<close>

definition scaled_scores :: "real list \<Rightarrow> real list list \<Rightarrow> real list" where
  "scaled_scores q K = map (\<lambda>k. dot q k / sqrt (real (length q))) K"

text \<open>\<open>clip_value * torch.tanh(attn_weights)\<close> if a clip value is given.\<close>

definition clip_logits :: "real option \<Rightarrow> real list \<Rightarrow> real list" where
  "clip_logits clip_value ws =
     (case clip_value of None \<Rightarrow> ws | Some c \<Rightarrow> map (\<lambda>w. c * tanh w) ws)"

text \<open>
  \<open>attn_weights.masked_fill(mask.unsqueeze(1), float('-1e9'))\<close> if a mask is given. The
  result has the size of the logits: the mask needs one entry per position, or a single
  entry, which is then broadcast over the positions; any other size raises.
\<close>

definition masked_fill :: "bool list option \<Rightarrow> real list \<Rightarrow> py_error + real list" where
  "masked_fill msk ws =
     (case msk of None \<Rightarrow> Inr ws
      | Some m \<Rightarrow>
          if length m = length ws
          then Inr (map2 (\<lambda>w b. if b then - 1000000000 else w) ws m)
          else if length m = 1 then Inr (map (\<lambda>w. if m ! 0 then - 1000000000 else w) ws)
          else Inl RuntimeError)"

text \<open>Entry \<open>i\<close> of a mask that \<open>masked_fill\<close> applies to \<open>n\<close> positions.\<close>

definition mask_entry :: "bool list \<Rightarrow> nat \<Rightarrow> nat \<Rightarrow> bool" where
  "mask_entry m n i = (if length m = n then m ! i else m ! 0)"

text \<open>The logits that enter the softmax (lines 86 to 93).\<close>

definition myMHA_logits ::
    "real list \<Rightarrow> real list list \<Rightarrow> bool list option \<Rightarrow> real option \<Rightarrow> py_error + real list" where
  "myMHA_logits q K msk clip_value = masked_fill msk (clip_logits clip_value (scaled_scores q K))"

text \<open>
  \<open>torch.softmax(attn_weights, dim=-1)\<close>, a function of the tensor library: it divides the
  exponential of every logit minus the largest logit by the sum of these exponentials.
  In 32-bit floats the exponential of a number below \<open>-150 ln 2 = -103.97\<dots>\<close> is exactly
  zero; \<open>exp32\<close> is the exponential with this underflow, cut at \<open>-104\<close>.
\<close>

definition exp32 :: "real \<Rightarrow> real" where
  "exp32 x = (if x < - 104 then 0 else exp x)"

definition softmax :: "real list \<Rightarrow> real list" where
  "softmax ws =
     (let es = map (\<lambda>w. exp32 (w - Max (set ws))) ws in map (\<lambda>e. e / sum_list es) es)"

text \<open>
  The attention weights of the row and its output \<open>torch.bmm(attn_weights, V)\<close>, the
  weighted sum of the value vectors.
\<close>

definition myMHA_weights ::
    "real list \<Rightarrow> real list list \<Rightarrow> bool list option \<Rightarrow> real option \<Rightarrow> py_error + real list" where
  "myMHA_weights q K msk clip_value =
     (case myMHA_logits q K msk clip_value of Inl e \<Rightarrow> Inl e | Inr ls \<Rightarrow> Inr (softmax ls))"

definition weighted_sum :: "real list \<Rightarrow> real list list \<Rightarrow> real list" where
  "weighted_sum ws V =
     foldr (\<lambda>(w, v) acc. map2 (+) (map ((*) w) v) acc) (zip ws V)
       (replicate (case V of [] \<Rightarrow> 0 | v # _ \<Rightarrow> length v) 0)"

definition myMHA_row :: "real list \<Rightarrow> real list list \<Rightarrow> real list list \<Rightarrow> bool list option \<Rightarrow>
    real option \<Rightarrow> py_error + (real list \<times> real list)" where
  "myMHA_row q K V msk clip_value =
     (case myMHA_weights q K msk clip_value of Inl e \<Rightarrow> Inl e
      | Inr ws \<Rightarrow> Inr (weighted_sum ws V, ws))"

section \<open>Scores, arg-max and top-k\<close>

text \<open>
  A log-probability is a real number or \<open>-inf\<close>, the value of \<open>torch.log\<close> at 0; \<open>None\<close>
  stands for \<open>-inf\<close> and is below every number in the order on \<open>real option\<close>. Adding
  \<open>-inf\<close> gives \<open>-inf\<close>. Probabilities are outputs of a softmax, hence never negative;
  not-a-number values are not modelled.
\<close>

type_synonym score = "real option"

definition log_t :: "real \<Rightarrow> score" where
  "log_t p = (if p \<le> 0 then None else Some (ln p))"

definition score_add :: "score \<Rightarrow> score \<Rightarrow> score" where
  "score_add a b = (case a of None \<Rightarrow> None | Some u \<Rightarrow>
                      (case b of None \<Rightarrow> None | Some v \<Rightarrow> Some (u + v)))"

text \<open>
  Modelled from the spec: \<open>torch.topk\<close> and \<open>torch.argmax\<close> belong to the tensor library.
  The selection returns the indices of the \<open>k\<close> largest entries in descending order of
  value, stable with the first-seen entry winning on ties, and raises when \<open>k\<close> exceeds
  the number of entries; arg-max is the first index of the largest entry and raises on an
  empty row.
\<close>

definition argsort_desc :: "('a::linorder) list \<Rightarrow> nat list" where
  "argsort_desc xs = rev (sort_key (\<lambda>i. xs ! i) (rev [0..<length xs]))"

definition topk :: "('a::linorder) list \<Rightarrow> nat \<Rightarrow> py_error + ('a list \<times> nat list)" where
  "topk xs k =
     (if length xs < k then Inl RuntimeError
      else let top_idx = take k (argsort_desc xs)
           in Inr (map (\<lambda>i. xs ! i) top_idx, top_idx))"

definition argmax :: "('a::linorder) list \<Rightarrow> py_error + nat" where
  "argmax xs = (case argsort_desc xs of [] \<Rightarrow> Inl RuntimeError | i # _ \<Rightarrow> Inr i)"

section \<open>Decoder stack (\<open>Transformer_decoder_net\<close>)\<close>

text \<open>
  The stack holds \<open>nb_layers_decoder - 1\<close> layers with caches and the final single-head
  layer with its learned projection \<open>Wq_final\<close>. The keys and values of the
  cross-attention, \<open>K_att\<close> and \<open>V_att\<close>, have one entry per row, from which layer \<open>l\<close>
  reads its block \<open>[:, :, l*dim_emb:(l+1)*dim_emb]\<close>: a row is a function from the layer
  number to the block, and a block is the list of the key (or value) vectors of the
  positions.
\<close>

type_synonym keys = "real list list"

record ('v, 'c) decoder_net =
  decoder_layers :: "('v, 'c) decoder_layer list"
  Wq_final :: "'v \<Rightarrow> real list"

text \<open>
  The final layer on one row (lines 240 to 243):
  \<open>myMHA(Wq_final(h_t), K_att_l, V_att_l, 1, mask, 10)[1]\<close>, the attention weights of a
  single head with the visited-mask and the clip value 10. They are the next-node
  probabilities.
\<close>

definition final_attn :: "('v, keys) decoder_net \<Rightarrow> 'v \<Rightarrow> keys \<Rightarrow> keys \<Rightarrow> bool list \<Rightarrow>
    py_error + real list" where
  "final_attn dec h_t K_att_l V_att_l msk =
     (case myMHA_row (Wq_final dec h_t) K_att_l V_att_l (Some msk) (Some 10) of
        Inl e \<Rightarrow> Inl e
      | Inr (attn_output, attn_weights) \<Rightarrow> Inr attn_weights)"

definition decoder_reset :: "('v, 'c) decoder_net \<Rightarrow> ('v, 'c) decoder_net" where
  "decoder_reset dec = dec\<lparr>decoder_layers := map reset_selfatt_keys_values (decoder_layers dec)\<rparr>"

definition decoder_reorder ::
    "('v, 'c) decoder_net \<Rightarrow> nat \<Rightarrow> nat list list \<Rightarrow> py_error + ('v, 'c) decoder_net" where
  "decoder_reorder dec t idx_top_beams =
     (case seq_e (map (\<lambda>lay. reorder_selfatt_keys_values lay t idx_top_beams)
                   (decoder_layers dec)) of
        Inl e \<Rightarrow> Inl e | Inr ls \<Rightarrow> Inr (dec\<lparr>decoder_layers := ls\<rparr>))"

definition decoder_repeat ::
    "('v, 'c) decoder_net \<Rightarrow> nat \<Rightarrow> py_error + ('v, 'c) decoder_net" where
  "decoder_repeat dec B =
     (case seq_e (map (\<lambda>lay. repeat_selfatt_keys_values lay B) (decoder_layers dec)) of
        Inl e \<Rightarrow> Inl e | Inr ls \<Rightarrow> Inr (dec\<lparr>decoder_layers := ls\<rparr>))"

text \<open>The loop over the layers with caches, \<open>l\<close> counting the layer.\<close>

fun layers_forward :: "('v, 'c) decoder_layer list \<Rightarrow> nat \<Rightarrow> 'v list \<Rightarrow> (nat \<Rightarrow> 'c) list \<Rightarrow>
    (nat \<Rightarrow> 'c) list \<Rightarrow> bool list list \<Rightarrow> py_error + (('v, 'c) decoder_layer list \<times> 'v list)" where
  "layers_forward [] l h_t K_att V_att msk = Inr ([], h_t)"
| "layers_forward (lay # ls) l h_t K_att V_att msk =
     (case layer_forward lay h_t (map (\<lambda>r. r l) K_att) (map (\<lambda>r. r l) V_att) msk of
        Inl e \<Rightarrow> Inl e
      | Inr (lay', h') \<Rightarrow>
         (case layers_forward ls (Suc l) h' K_att V_att msk of
            Inl e \<Rightarrow> Inl e
          | Inr (ls', h'') \<Rightarrow> Inr (lay' # ls', h'')))"

text \<open>
  \<open>Transformer_decoder_net.forward\<close>: the layers in turn, then the final layer on block
  \<open>nb_layers_decoder - 1\<close>; its operands need one row per query.
\<close>

definition decoder_forward :: "('v, keys) decoder_net \<Rightarrow> 'v list \<Rightarrow> (nat \<Rightarrow> keys) list \<Rightarrow>
    (nat \<Rightarrow> keys) list \<Rightarrow> bool list list \<Rightarrow>
    py_error + (('v, keys) decoder_net \<times> real list list)" where
  "decoder_forward dec h_t K_att V_att msk =
     (case layers_forward (decoder_layers dec) 0 h_t K_att V_att msk of
        Inl e \<Rightarrow> Inl e
      | Inr (ls', h) \<Rightarrow>
         (let l = length (decoder_layers dec)
          in if length K_att \<noteq> length h \<or> length V_att \<noteq> length h \<or> length msk \<noteq> length h
             then Inl RuntimeError
             else case seq_e (map (\<lambda>b. final_attn dec (h ! b) ((K_att ! b) l) ((V_att ! b) l)
                                      (msk ! b)) [0..<length h]) of
                    Inl e \<Rightarrow> Inl e
                  | Inr prob_next_node \<Rightarrow> Inr (dec\<lparr>decoder_layers := ls'\<rparr>, prob_next_node)))"

section \<open>Tour construction (\<open>TSP_net.forward\<close>)\<close>

text \<open>
  The network. \<open>encode\<close> stands for the input embedding, the concatenation of the start
  placeholder and the encoder: it maps the coordinates \<open>x\<close> to \<open>h_encoder\<close> with
  \<open>nb_nodes + 1\<close> vectors per batch row. \<open>WK_att_decoder\<close> and \<open>WV_att_decoder\<close> map a row of
  \<open>h_encoder\<close> to the cross-attention keys and values of all decoder layers. \<open>PE\<close> is the
  table of positional encodings with \<open>max_len_PE\<close> entries, \<open>vadd\<close> the addition of
  vectors, \<open>sample_categorical\<close> one draw of \<open>Categorical(prob).sample()\<close> for a row.
\<close>

record ('v, 'c) TSP_net =
  encode :: "point list list \<Rightarrow> 'v list list"
  WK_att_decoder :: "'v list \<Rightarrow> nat \<Rightarrow> 'c"
  WV_att_decoder :: "'v list \<Rightarrow> nat \<Rightarrow> 'c"
  PE :: "'v list"
  vadd :: "'v \<Rightarrow> 'v \<Rightarrow> 'v"
  decoder :: "('v, 'c) decoder_net"
  sample_categorical :: "real list \<Rightarrow> nat"

text \<open>\<open>rows[zero_to_bsz, idx]\<close>: entry \<open>idx[b]\<close> of every row \<open>b\<close>.\<close>

definition gather_rows :: "'a list list \<Rightarrow> nat list \<Rightarrow> py_error + 'a list" where
  "gather_rows rows idx =
     (if length idx \<noteq> length rows then Inl IndexError
      else seq_e (map2 (\<lambda>r i. index_t r (int i)) rows idx))"

text \<open>\<open>m[i] = True\<close> on one row of a mask.\<close>

definition set_true :: "bool list \<Rightarrow> nat \<Rightarrow> py_error + bool list" where
  "set_true m i = (if i < length m then Inr (m[i := True]) else Inl IndexError)"

text \<open>
  The initial query and mask of a decode: \<open>h_encoder\<close> at the start placeholder plus
  \<open>PE[0]\<close>, and a mask with only the start placeholder \<open>nb_nodes\<close> visited.
\<close>

definition start_query :: "('v, 'c) TSP_net \<Rightarrow> nat \<Rightarrow> 'v list list \<Rightarrow> py_error + 'v list" where
  "start_query net nb_nodes h_encoder =
     (case gather_rows h_encoder (replicate (length h_encoder) nb_nodes) of
        Inl e \<Rightarrow> Inl e
      | Inr hs \<Rightarrow> (case index_t (PE net) 0 of Inl e \<Rightarrow> Inl e
                   | Inr pe \<Rightarrow> Inr (map (\<lambda>v. vadd net v pe) hs)))"

definition start_mask :: "nat \<Rightarrow> nat \<Rightarrow> bool list list" where
  "start_mask bsz nb_nodes = replicate bsz ((replicate (nb_nodes + 1) False)[nb_nodes := True])"

subsection \<open>Greedy decoding\<close>

record ('v, 'c) greedy_state =
  gs_decoder :: "('v, 'c) decoder_net"
  gs_h_t :: "'v list"
  gs_mask :: "bool list list"
  gs_tours :: "nat list list"
  gs_logprobs :: "score list list"

text \<open>
  The choice of the next node for every row: arg-max if \<open>deterministic\<close>, a categorical
  sample otherwise.
\<close>

definition choose_next :: "('v, 'c) TSP_net \<Rightarrow> bool \<Rightarrow> real list list \<Rightarrow> py_error + nat list" where
  "choose_next net deterministic prob_next_node =
     (if deterministic then seq_e (map argmax prob_next_node)
      else Inr (map (sample_categorical net) prob_next_node))"

text \<open>
  One iteration \<open>t\<close> of the greedy loop. \<open>gs_tours\<close> and \<open>gs_logprobs\<close> are the Python
  lists \<open>tours\<close> and \<open>sumLogProbOfActions\<close>, one entry of size \<open>bsz\<close> per step.
\<close>

definition greedy_step :: "('v, keys) TSP_net \<Rightarrow> bool \<Rightarrow> 'v list list \<Rightarrow> (nat \<Rightarrow> keys) list \<Rightarrow>
    (nat \<Rightarrow> keys) list \<Rightarrow> nat \<Rightarrow> ('v, keys) greedy_state \<Rightarrow> py_error + ('v, keys) greedy_state" where
  "greedy_step net deterministic h_encoder K_att V_att t st =
     (case decoder_forward (gs_decoder st) (gs_h_t st) K_att V_att (gs_mask st) of
        Inl e \<Rightarrow> Inl e
      | Inr (dec, prob_next_node) \<Rightarrow>
     (case choose_next net deterministic prob_next_node of Inl e \<Rightarrow> Inl e | Inr idx \<Rightarrow>
     (case gather_rows prob_next_node idx of Inl e \<Rightarrow> Inl e | Inr ProbOfChoices \<Rightarrow>
     (case gather_rows h_encoder idx of Inl e \<Rightarrow> Inl e | Inr h \<Rightarrow>
     (case index_t (PE net) (int t + 1) of Inl e \<Rightarrow> Inl e | Inr pe \<Rightarrow>
     (if length idx \<noteq> length (gs_mask st) then Inl IndexError else
      case seq_e (map2 set_true (gs_mask st) idx) of Inl e \<Rightarrow> Inl e | Inr mask_visited \<Rightarrow>
        Inr \<lparr>gs_decoder = dec, gs_h_t = map (\<lambda>v. vadd net v pe) h, gs_mask = mask_visited,
             gs_tours = gs_tours st @ [idx],
             gs_logprobs = gs_logprobs st @ [map log_t ProbOfChoices]\<rparr>))))))"

fun greedy_loop :: "('v, keys) TSP_net \<Rightarrow> bool \<Rightarrow> 'v list list \<Rightarrow> (nat \<Rightarrow> keys) list \<Rightarrow>
    (nat \<Rightarrow> keys) list \<Rightarrow> nat list \<Rightarrow> ('v, keys) greedy_state \<Rightarrow> py_error + ('v, keys) greedy_state" where
  "greedy_loop net deterministic h_encoder K_att V_att [] st = Inr st"
| "greedy_loop net deterministic h_encoder K_att V_att (t # ts) st =
     (case greedy_step net deterministic h_encoder K_att V_att t st of
        Inl e \<Rightarrow> Inl e
      | Inr st' \<Rightarrow> greedy_loop net deterministic h_encoder K_att V_att ts st')"

text \<open>
  \<open>torch.stack(cols, dim=1)\<close> of a Python list of vectors of size \<open>bsz\<close>; stacking an
  empty list raises.
\<close>

definition stack_dim1 :: "nat \<Rightarrow> 'a list list \<Rightarrow> py_error + 'a list list" where
  "stack_dim1 bsz cols =
     (if cols = [] then Inl RuntimeError
      else Inr (map (\<lambda>b. map (\<lambda>c. c ! b) cols) [0..<bsz]))"

definition sum_scores_row :: "score list \<Rightarrow> score" where
  "sum_scores_row r = foldl score_add (Some 0) r"

text \<open>
  The greedy branch of \<open>forward\<close> (lines 346 to 387), with the flag \<open>deterministic\<close> set
  to \<open>True\<close> as the source does. It returns the decoder with its caches, the tours and the
  scores.
\<close>

definition forward_greedy :: "('v, keys) TSP_net \<Rightarrow> nat \<Rightarrow> 'v list list \<Rightarrow> (nat \<Rightarrow> keys) list \<Rightarrow>
    (nat \<Rightarrow> keys) list \<Rightarrow> py_error + (('v, keys) decoder_net \<times> nat list list \<times> score list)" where
  "forward_greedy net nb_nodes h_encoder K_att V_att =
     (let deterministic = True; bsz = length h_encoder
      in case start_query net nb_nodes h_encoder of Inl e \<Rightarrow> Inl e | Inr h_start \<Rightarrow>
         (case greedy_loop net deterministic h_encoder K_att V_att [0..<nb_nodes]
                 \<lparr>gs_decoder = decoder_reset (decoder net), gs_h_t = h_start,
                  gs_mask = start_mask bsz nb_nodes, gs_tours = [], gs_logprobs = []\<rparr> of
            Inl e \<Rightarrow> Inl e
          | Inr st \<Rightarrow>
             (case stack_dim1 bsz (gs_logprobs st) of Inl e \<Rightarrow> Inl e | Inr lp \<Rightarrow>
              (case stack_dim1 bsz (gs_tours st) of Inl e \<Rightarrow> Inl e | Inr tours_greedy \<Rightarrow>
                 Inr (gs_decoder st, tours_greedy, map sum_scores_row lp)))))"

subsection \<open>Beam search\<close>

text \<open>
  The state of the beam search after a step: the decoder with its caches, the queries
  \<open>h_t\<close> of size \<open>(bsz, B_t, dim_emb)\<close>, the masks of size \<open>(bsz, B_t, nb_nodes+1)\<close>, the
  tours of size \<open>(bsz, B_t, nb_nodes)\<close>, the cumulated scores of size \<open>(bsz, B_t)\<close> and
  the keys and values of the cross-attention repeated for the beams.
\<close>

record ('v, 'c) beam_state =
  bs_decoder :: "('v, 'c) decoder_net"
  bs_h_t :: "'v list list"
  bs_mask :: "bool list list list"
  bs_tours :: "nat list list list"
  bs_sum_scores :: "score list list"
  bs_K_att :: "(nat \<Rightarrow> 'c) list"
  bs_V_att :: "(nat \<Rightarrow> 'c) list"

text \<open>\<open>h_t[b, :, :] = h_encoder[b, idx[b], :]\<close> for every \<open>b\<close>, then \<open>+ PE[t+1]\<close>.\<close>

definition next_queries :: "('v, 'c) TSP_net \<Rightarrow> 'v list list \<Rightarrow> nat list list \<Rightarrow> nat \<Rightarrow>
    py_error + 'v list list" where
  "next_queries net h_encoder idx t =
     (case gather_beams h_encoder idx of Inl e \<Rightarrow> Inl e | Inr h \<Rightarrow>
      (case index_t (PE net) (int t + 1) of Inl e \<Rightarrow> Inl e
       | Inr pe \<Rightarrow> Inr (map (map (\<lambda>v. vadd net v pe)) h)))"

text \<open>\<open>mask[b, zero_to_B, idx[b]] = True\<close> for every \<open>b\<close>: beam \<open>i\<close> visits \<open>idx[b][i]\<close>.\<close>

definition mark_visited :: "bool list list list \<Rightarrow> nat list list \<Rightarrow> py_error + bool list list list" where
  "mark_visited msk idx = seq_e (map2 (\<lambda>ms ids. seq_e (map2 set_true ms ids)) msk idx)"

text \<open>\<open>tours[:, :, t] = idx\<close>\<close>

definition write_entry :: "nat \<Rightarrow> nat list \<Rightarrow> nat \<Rightarrow> py_error + nat list" where
  "write_entry t tr i = (if t < length tr then Inr (tr[t := i]) else Inl IndexError)"

definition write_step :: "nat list list list \<Rightarrow> nat \<Rightarrow> nat list list \<Rightarrow>
    py_error + nat list list list" where
  "write_step trs t idx = seq_e (map2 (\<lambda>ts ids. seq_e (map2 (write_entry t) ts ids)) trs idx)"

text \<open>
  Step \<open>t = 0\<close> (lines 399 to 430): one decoder call on the start query, the
  \<open>B_t0 = min(B, nb_nodes)\<close> best first nodes of every batch row, and the caches and
  cross-attention operands repeated \<open>B_t0\<close> times.
\<close>

definition beam_step0 :: "('v, keys) TSP_net \<Rightarrow> nat \<Rightarrow> nat \<Rightarrow> 'v list list \<Rightarrow> (nat \<Rightarrow> keys) list \<Rightarrow>
    (nat \<Rightarrow> keys) list \<Rightarrow> ('v, keys) decoder_net \<Rightarrow> py_error + ('v, keys) beam_state" where
  "beam_step0 net nb_nodes B h_encoder K_att_tmp V_att_tmp dec0 =
     (let B_t0 = min B nb_nodes; bsz = length h_encoder;
          msk0 = start_mask bsz nb_nodes
      in case start_query net nb_nodes h_encoder of Inl e \<Rightarrow> Inl e | Inr h_start \<Rightarrow>
     (case decoder_forward dec0 h_start K_att_tmp V_att_tmp msk0 of
        Inl e \<Rightarrow> Inl e
      | Inr (dec, prob_next_node) \<Rightarrow>
     (case seq_e (map (\<lambda>r. topk (map log_t r) B_t0) prob_next_node) of
        Inl e \<Rightarrow> Inl e
      | Inr tops \<Rightarrow>
     (let top_val = map fst tops; top_idx = map snd tops
      in case mark_visited (map (replicate B_t0) msk0) top_idx of
           Inl e \<Rightarrow> Inl e
         | Inr msk \<Rightarrow>
        (case write_step (replicate bsz (replicate B_t0 (replicate nb_nodes 0))) 0 top_idx of
           Inl e \<Rightarrow> Inl e
         | Inr trs \<Rightarrow>
        (case next_queries net h_encoder top_idx 0 of Inl e \<Rightarrow> Inl e | Inr h \<Rightarrow>
        (case decoder_repeat dec B_t0 of Inl e \<Rightarrow> Inl e | Inr dec' \<Rightarrow>
           Inr \<lparr>bs_decoder = dec', bs_h_t = h, bs_mask = msk, bs_tours = trs,
                bs_sum_scores = top_val,
                bs_K_att = repeat_interleave B_t0 K_att_tmp,
                bs_V_att = repeat_interleave B_t0 V_att_tmp\<rparr>)))))))"

text \<open>
  \<open>prob_next_node.view(bsz, Bp, nb_nodes+1)\<close> on the \<open>bsz * Bp\<close> rows the decoder
  returns: the number of elements must fit.
\<close>

definition view_beams :: "nat \<Rightarrow> nat \<Rightarrow> nat \<Rightarrow> 'a list list \<Rightarrow> py_error + 'a list list list" where
  "view_beams bsz Bp n rows =
     (if length (concat rows) \<noteq> bsz * Bp * n then Inl RuntimeError
      else Inr (map (\<lambda>b. take Bp (drop (b * Bp) rows)) [0..<bsz]))"

text \<open>
  Steps \<open>t \<ge> 1\<close> (lines 432 to 507). \<open>Bp\<close> is the number of beams the step starts from,
  \<open>B_t0\<close> at \<open>t = 1\<close> and \<open>B\<close> afterwards. The decoder runs on the flattened beams; every
  (beam, node) pair gets the score of the beam plus the log-probability of the node; the
  \<open>B\<close> best pairs of each batch row are kept, their beam \<open>top_idx // (nb_nodes+1)\<close> and
  node \<open>top_idx - beam * (nb_nodes+1)\<close>; masks, tours, queries and caches are gathered
  from the source beams. At \<open>t = 1\<close> the cross-attention operands are repeated \<open>B\<close> times,
  later they are kept.
\<close>

definition beam_expand :: "('v, keys) TSP_net \<Rightarrow> nat \<Rightarrow> nat \<Rightarrow> nat \<Rightarrow> 'v list list \<Rightarrow>
    (nat \<Rightarrow> keys) list \<Rightarrow> (nat \<Rightarrow> keys) list \<Rightarrow> nat \<Rightarrow> ('v, keys) beam_state \<Rightarrow>
    py_error + ('v, keys) beam_state" where
  "beam_expand net nb_nodes B Bp h_encoder K_att_tmp V_att_tmp t st =
     (let bsz = length h_encoder
      in case decoder_forward (bs_decoder st) (concat (bs_h_t st)) (bs_K_att st) (bs_V_att st)
                (concat (bs_mask st)) of
        Inl e \<Rightarrow> Inl e
      | Inr (dec, prob_flat) \<Rightarrow>
     (case view_beams bsz Bp (nb_nodes + 1) prob_flat of
        Inl e \<Rightarrow> Inl e
      | Inr prob_next_node \<Rightarrow>
     (let sum_scores = map2 (\<lambda>ps ss. map2 (\<lambda>p s. map (\<lambda>q. score_add (log_t q) s) p) ps ss)
                         prob_next_node (bs_sum_scores st);
          sum_scores_flatten = map concat sum_scores
      in case seq_e (map (\<lambda>r. topk r B) sum_scores_flatten) of
           Inl e \<Rightarrow> Inl e
         | Inr tops \<Rightarrow>
     (let top_val = map fst tops; top_idx = map snd tops;
          idx_top_beams = map (map (\<lambda>i. i div (nb_nodes + 1))) top_idx;
          idx_in_beams = map2 (map2 (\<lambda>i j. i - j * (nb_nodes + 1))) top_idx idx_top_beams
      in case gather_beams (bs_mask st) idx_top_beams of Inl e \<Rightarrow> Inl e | Inr msk_src \<Rightarrow>
        (case mark_visited msk_src idx_in_beams of Inl e \<Rightarrow> Inl e | Inr msk \<Rightarrow>
        (case gather_beams (bs_tours st) idx_top_beams of
           Inl e \<Rightarrow> Inl e
         | Inr trs_src \<Rightarrow>
        (case write_step trs_src t idx_in_beams of Inl e \<Rightarrow> Inl e | Inr trs \<Rightarrow>
        (case next_queries net h_encoder idx_in_beams t of Inl e \<Rightarrow> Inl e | Inr h \<Rightarrow>
        (case decoder_reorder dec t idx_top_beams of Inl e \<Rightarrow> Inl e | Inr dec' \<Rightarrow>
           Inr \<lparr>bs_decoder = dec', bs_h_t = h, bs_mask = msk, bs_tours = trs,
                bs_sum_scores = top_val,
                bs_K_att = (if t = 1 then repeat_interleave B K_att_tmp else bs_K_att st),
                bs_V_att = (if t = 1 then repeat_interleave B V_att_tmp
                            else bs_V_att st)\<rparr>)))))))))"

text \<open>
  The selection a step \<open>t \<ge> 1\<close> makes in a state (lines 436 to 456), computed as in
  \<open>beam_expand\<close>: \<open>idx_top_beams\<close>, the source beam of every kept beam, and
  \<open>idx_in_beams\<close>, the node the kept beam moves to.
\<close>

definition beam_select :: "nat \<Rightarrow> nat \<Rightarrow> nat \<Rightarrow> 'v list list \<Rightarrow> ('v, keys) beam_state \<Rightarrow>
    py_error + (nat list list \<times> nat list list)" where
  "beam_select nb_nodes B Bp h_encoder st =
     (let bsz = length h_encoder
      in case decoder_forward (bs_decoder st) (concat (bs_h_t st)) (bs_K_att st) (bs_V_att st)
                (concat (bs_mask st)) of
        Inl e \<Rightarrow> Inl e
      | Inr (dec, prob_flat) \<Rightarrow>
     (case view_beams bsz Bp (nb_nodes + 1) prob_flat of
        Inl e \<Rightarrow> Inl e
      | Inr prob_next_node \<Rightarrow>
     (let sum_scores = map2 (\<lambda>ps ss. map2 (\<lambda>p s. map (\<lambda>q. score_add (log_t q) s) p) ps ss)
                         prob_next_node (bs_sum_scores st);
          sum_scores_flatten = map concat sum_scores
      in case seq_e (map (\<lambda>r. topk r B) sum_scores_flatten) of
           Inl e \<Rightarrow> Inl e
         | Inr tops \<Rightarrow>
     (let top_idx = map snd tops;
          idx_top_beams = map (map (\<lambda>i. i div (nb_nodes + 1))) top_idx;
          idx_in_beams = map2 (map2 (\<lambda>i j. i - j * (nb_nodes + 1))) top_idx idx_top_beams
      in Inr (idx_top_beams, idx_in_beams)))))"

text \<open>
  The loop body, with the three branches of the source. The state is \<open>None\<close> before step
  0, which creates it.
\<close>

definition beam_step :: "('v, keys) TSP_net \<Rightarrow> nat \<Rightarrow> nat \<Rightarrow> 'v list list \<Rightarrow> (nat \<Rightarrow> keys) list \<Rightarrow>
    (nat \<Rightarrow> keys) list \<Rightarrow> ('v, keys) decoder_net \<Rightarrow> nat \<Rightarrow> ('v, keys) beam_state option \<Rightarrow>
    py_error + ('v, keys) beam_state" where
  "beam_step net nb_nodes B h_encoder K_att_tmp V_att_tmp dec0 t sto =
     (if t = 0 then beam_step0 net nb_nodes B h_encoder K_att_tmp V_att_tmp dec0
      else case sto of None \<Rightarrow> Inl UnboundLocalError
           | Some st \<Rightarrow>
               if t = 1
               then beam_expand net nb_nodes B (min B nb_nodes) h_encoder K_att_tmp V_att_tmp t st
               else beam_expand net nb_nodes B B h_encoder K_att_tmp V_att_tmp t st)"

fun beam_loop :: "('v, keys) TSP_net \<Rightarrow> nat \<Rightarrow> nat \<Rightarrow> 'v list list \<Rightarrow> (nat \<Rightarrow> keys) list \<Rightarrow>
    (nat \<Rightarrow> keys) list \<Rightarrow> ('v, keys) decoder_net \<Rightarrow> nat list \<Rightarrow> ('v, keys) beam_state option \<Rightarrow>
    py_error + ('v, keys) beam_state option" where
  "beam_loop net nb_nodes B h_encoder K_att_tmp V_att_tmp dec0 [] sto = Inr sto"
| "beam_loop net nb_nodes B h_encoder K_att_tmp V_att_tmp dec0 (t # ts) sto =
     (case beam_step net nb_nodes B h_encoder K_att_tmp V_att_tmp dec0 t sto of
        Inl e \<Rightarrow> Inl e
      | Inr st \<Rightarrow> beam_loop net nb_nodes B h_encoder K_att_tmp V_att_tmp dec0 ts (Some st))"

text \<open>
  The beam-search branch of \<open>forward\<close> (lines 390 to 511): the loop over all steps, then
  \<open>sum_scores[:, 0]\<close>. Without a single step \<open>sum_scores\<close> is unassigned.
\<close>

definition forward_beamsearch :: "('v, keys) TSP_net \<Rightarrow> nat \<Rightarrow> nat \<Rightarrow> 'v list list \<Rightarrow>
    (nat \<Rightarrow> keys) list \<Rightarrow> (nat \<Rightarrow> keys) list \<Rightarrow> ('v, keys) decoder_net \<Rightarrow>
    py_error + (('v, keys) decoder_net \<times> nat list list list \<times> score list)" where
  "forward_beamsearch net nb_nodes B h_encoder K_att V_att dec =
     (case beam_loop net nb_nodes B h_encoder K_att V_att (decoder_reset dec)
             [0..<nb_nodes] None of
        Inl e \<Rightarrow> Inl e
      | Inr None \<Rightarrow> Inl UnboundLocalError
      | Inr (Some st) \<Rightarrow>
         (case seq_e (map (\<lambda>r. index_t r 0) (bs_sum_scores st)) of
            Inl e \<Rightarrow> Inl e
          | Inr scores \<Rightarrow> Inr (bs_decoder st, bs_tours st, scores)))"

text \<open>The state of the beam search after the steps \<open>0, \<dots>, t\<close> of a decode.\<close>

definition beam_state_after :: "('v, keys) TSP_net \<Rightarrow> nat \<Rightarrow> nat \<Rightarrow> 'v list list \<Rightarrow>
    (nat \<Rightarrow> keys) list \<Rightarrow> (nat \<Rightarrow> keys) list \<Rightarrow> ('v, keys) decoder_net \<Rightarrow> nat \<Rightarrow>
    py_error + ('v, keys) beam_state option" where
  "beam_state_after net nb_nodes B h_encoder K_att V_att dec t =
     beam_loop net nb_nodes B h_encoder K_att V_att (decoder_reset dec) [0..<Suc t] None"

subsection \<open>\<open>forward\<close>\<close>

text \<open>
  The tours of the beam search have one more dimension than the placeholder returned
  when the beam search is off.
\<close>

datatype beam_tours = Placeholder "nat list list" | Beams "nat list list list"

record forward_result =
  tours_greedy :: "nat list list"
  tours_beamsearch :: beam_tours
  scores_greedy :: "score list"
  scores_beamsearch :: "score list"

text \<open>
  \<open>forward(x, B, greedy, beamsearch)\<close>, with \<open>nb_nodes = x.shape[1]\<close> passed explicitly.
  \<open>torch.arange(B)\<close> raises for a negative \<open>B\<close>. The placeholders are
  \<open>torch.zeros(2, nb_nodes)\<close> and \<open>torch.zeros(2)\<close>. The result comes with the network,
  whose decoder caches the call has changed.
\<close>

definition forward :: "('v, keys) TSP_net \<Rightarrow> nat \<Rightarrow> point list list \<Rightarrow> int \<Rightarrow> bool \<Rightarrow> bool \<Rightarrow>
    py_error + (('v, keys) TSP_net \<times> forward_result)" where
  "forward net nb_nodes x B greedy beamsearch =
     (if B < 0 then Inl RuntimeError else
      let h_encoder = encode net x;
          K_att_decoder = map (WK_att_decoder net) h_encoder;
          V_att_decoder = map (WV_att_decoder net) h_encoder;
          r0 = \<lparr>tours_greedy = replicate 2 (replicate nb_nodes 0),
                tours_beamsearch = Placeholder (replicate 2 (replicate nb_nodes 0)),
                scores_greedy = replicate 2 (Some 0),
                scores_beamsearch = replicate 2 (Some 0)\<rparr>
      in case (if greedy
               then (case forward_greedy net nb_nodes h_encoder K_att_decoder V_att_decoder of
                       Inl e \<Rightarrow> Inl e
                     | Inr (dec, trs, scs) \<Rightarrow>
                         Inr (dec, r0\<lparr>tours_greedy := trs, scores_greedy := scs\<rparr>))
               else Inr (decoder net, r0)) of
           Inl e \<Rightarrow> Inl e
         | Inr (dec1, r1) \<Rightarrow>
            (if beamsearch
             then (case forward_beamsearch net nb_nodes (nat B) h_encoder K_att_decoder
                          V_att_decoder dec1 of
                     Inl e \<Rightarrow> Inl e
                   | Inr (dec2, trs, scs) \<Rightarrow>
                       Inr (net\<lparr>decoder := dec2\<rparr>,
                            r1\<lparr>tours_beamsearch := Beams trs, scores_beamsearch := scs\<rparr>))
             else Inr (net\<lparr>decoder := dec1\<rparr>, r1)))"

section \<open>A concrete network\<close>

text \<open>
  A small network for evaluation with \<open>dim_emb = 8\<close>. Embedding vectors of the decoder
  are natural numbers: the encoder output of node \<open>j\<close> is \<open>j\<close>, the positional encodings
  are 0, so the query of a step is the node visited last (\<open>nb_nodes\<close> at the start). The
  key of node \<open>j\<close> is the \<open>j\<close>-th unit vector, and \<open>Wq_final\<close> maps the query \<open>h\<close> to the
  vector whose scaled product with that key is \<open>artanh (ln (w h j) / 10)\<close>, for a table
  \<open>w\<close> of weights between 1 and 10: the clipped logit of node \<open>j\<close> is then \<open>ln (w h j)\<close>.
  \<open>example_probs\<close> is the closed form of the resulting probabilities: \<open>w h j\<close> divided by
  the sum over the unmasked nodes for an unmasked node \<open>j\<close>, and 0 for a masked one.
\<close>

definition unit_vec :: "nat \<Rightarrow> nat \<Rightarrow> real list" where
  "unit_vec n j = map (\<lambda>i. if i = j then 1 else 0) [0..<n]"

definition example_Wq :: "(nat \<Rightarrow> nat \<Rightarrow> real) \<Rightarrow> nat \<Rightarrow> real list" where
  "example_Wq w h = map (\<lambda>j. sqrt 8 * artanh (ln (w h j) / 10)) [0..<8]"

text \<open>The layer with a cache of the network: as \<open>example_layer\<close>, on blocks of keys.\<close>

definition example_decoder_layer :: "int option \<Rightarrow> (nat, keys) decoder_layer" where
  "example_decoder_layer sl =
     \<lparr>segm_len = sl, K_sa = None, V_sa = None, Wk_selfatt = (\<lambda>v. v + 1),
      Wv_selfatt = (\<lambda>v. v + 2), attend = (\<lambda>q K V ka va m. q)\<rparr>"

definition example_probs :: "(nat \<Rightarrow> nat \<Rightarrow> real) \<Rightarrow> nat \<Rightarrow> bool list \<Rightarrow> real list" where
  "example_probs w h m =
     (let ws = map (\<lambda>j. if m ! j then 0 else w h j) [0..<length m]
      in map (\<lambda>u. u / sum_list ws) ws)"

definition example_net :: "(nat \<Rightarrow> nat \<Rightarrow> real) \<Rightarrow> int option \<Rightarrow> (nat, keys) TSP_net" where
  "example_net w sl =
     \<lparr>encode = map (\<lambda>row. [0..<length row + 1]),
      WK_att_decoder = (\<lambda>hs l. map (unit_vec 8) hs),
      WV_att_decoder = (\<lambda>hs l. map (unit_vec 8) hs),
      PE = replicate 8 0, vadd = (+),
      decoder = \<lparr>decoder_layers = [example_decoder_layer sl], Wq_final = example_Wq w\<rparr>,
      sample_categorical = (\<lambda>p. 0)\<rparr>"

text \<open>Weights that prefer, from the start of a decode of four nodes, node 0 and then
  node 1, and from node 0 the nodes 2 and 3.\<close>

definition example_weights :: "nat \<Rightarrow> nat \<Rightarrow> real" where
  "example_weights h j =
     (if h = 4 then (if j = 0 then 4 else if j = 1 then 2 else 1)
      else if h = 0 then (if j = 2 then 4 else if j = 3 then 3 else 1) else 1)"

text \<open>Weights that prefer, among the first four nodes, the node of the highest index.\<close>

definition example_ranked :: "nat \<Rightarrow> nat \<Rightarrow> real" where
  "example_ranked h j = (if j < 4 then real j + 1 else 1)"

text \<open>
  The operands of a decode of one instance with two nodes on the network with equal
  weights, and its beam state after step 0 for beam width 2.
\<close>

definition example_uniform :: "(nat, keys) TSP_net" where
  "example_uniform = example_net (\<lambda>h j. 1) None"

definition example_keys :: "nat \<Rightarrow> (nat \<Rightarrow> keys) list" where
  "example_keys n = [\<lambda>l. map (unit_vec 8) [0..<n + 1]]"

definition example_beam_state0 :: "(nat, keys) beam_state" where
  "example_beam_state0 =
     \<lparr>bs_decoder = \<lparr>decoder_layers = [(example_decoder_layer None)\<lparr>K_sa := Some [[3], [3]],
                                                             V_sa := Some [[4], [4]]\<rparr>],
                     Wq_final = example_Wq (\<lambda>h j. 1)\<rparr>,
      bs_h_t = [[0, 1]],
      bs_mask = [[[True, False, True], [False, True, True]]],
      bs_tours = [[[0, 0], [1, 0]]],
      bs_sum_scores = [[Some (ln (1 / 2)), Some (ln (1 / 2))]],
      bs_K_att = repeat_interleave 2 (example_keys 2),
      bs_V_att = repeat_interleave 2 (example_keys 2)\<rparr>"

definition example_greedy_state0 :: "(nat, keys) greedy_state" where
  "example_greedy_state0 =
     \<lparr>gs_decoder = decoder_reset (decoder example_uniform), gs_h_t = [2],
      gs_mask = start_mask 1 2, gs_tours = [], gs_logprobs = []\<rparr>"

text \<open>
  The beam state after step 0 of a decode of one instance with four nodes on the network
  with the weights \<open>example_weights\<close>, for beam width 2: the beams start at the nodes 0
  and 1.
\<close>

definition example_beam_state4 :: "(nat, keys) beam_state" where
  "example_beam_state4 =
     \<lparr>bs_decoder = \<lparr>decoder_layers = [(example_decoder_layer None)\<lparr>K_sa := Some [[5], [5]],
                                                                     V_sa := Some [[6], [6]]\<rparr>],
                     Wq_final = example_Wq example_weights\<rparr>,
      bs_h_t = [[0, 1]],
      bs_mask = [[[True, False, False, False, True], [False, True, False, False, True]]],
      bs_tours = [[[0, 0, 0, 0], [1, 0, 0, 0]]],
      bs_sum_scores = [[Some (ln (1 / 2)), Some (ln (1 / 4))]],
      bs_K_att = repeat_interleave 2 (example_keys 4),
      bs_V_att = repeat_interleave 2 (example_keys 4)\<rparr>"

section \<open>Invariants of the tour construction\<close>

text \<open>
  What the tour construction needs of the final decoder layer: whenever it returns on a
  mask of more than one entry, it returns one probability per position and, as long as
  some position is unmasked, probability zero exactly on the masked positions.
\<close>

definition mask_respecting ::
    "('v \<Rightarrow> keys \<Rightarrow> keys \<Rightarrow> bool list \<Rightarrow> py_error + real list) \<Rightarrow> bool" where
  "mask_respecting fa \<longleftrightarrow>
     (\<forall>h k v m p. fa h k v m = Inr p \<longrightarrow> 1 < length m \<longrightarrow>
        length p = length m \<and>
        ((\<exists>j<length m. \<not> m ! j) \<longrightarrow>
           (\<forall>i<length m. (m ! i \<longrightarrow> p ! i = 0) \<and> (\<not> m ! i \<longrightarrow> 0 < p ! i))))"

text \<open>
  A mask \<open>m\<close> over \<open>nb_nodes + 1\<close> positions that marks the start placeholder and exactly
  the nodes of the partial tour \<open>vis\<close>, which visits nodes below \<open>nb_nodes\<close> without
  repetition.
\<close>

definition visited_ok :: "nat \<Rightarrow> bool list \<Rightarrow> nat list \<Rightarrow> bool" where
  "visited_ok nb_nodes m vis \<longleftrightarrow>
     length m = nb_nodes + 1 \<and> m ! nb_nodes \<and> distinct vis \<and> set vis \<subseteq> {..<nb_nodes} \<and>
     (\<forall>n<nb_nodes. m ! n \<longleftrightarrow> n \<in> set vis)"

text \<open>A tour: a permutation of the node indices \<open>0, \<dots>, nb_nodes - 1\<close>.\<close>

definition is_tour :: "nat \<Rightarrow> nat list \<Rightarrow> bool" where
  "is_tour nb_nodes tr \<longleftrightarrow> distinct tr \<and> set tr = {..<nb_nodes}"

text \<open>
  The greedy state after \<open>t\<close> steps: \<open>t\<close> columns of \<open>bsz\<close> choices, and for every row a
  mask that fits the nodes chosen so far.
\<close>

definition greedy_inv :: "nat \<Rightarrow> nat \<Rightarrow> ('v, 'c) greedy_state \<Rightarrow> bool" where
  "greedy_inv nb_nodes t st \<longleftrightarrow>
     length (gs_tours st) = t \<and>
     (\<forall>c\<in>set (gs_tours st). length c = length (gs_mask st)) \<and>
     (\<forall>b<length (gs_mask st).
        visited_ok nb_nodes (gs_mask st ! b) (map (\<lambda>c. c ! b) (gs_tours st)))"

text \<open>
  The beam state of \<open>bsz\<close> batch rows with \<open>Bt\<close> beams each after \<open>v\<close> nodes have been
  placed: every beam has a tour of \<open>nb_nodes\<close> entries whose first \<open>v\<close> fit its mask, and
  a finite score.
\<close>

definition beam_inv :: "nat \<Rightarrow> nat \<Rightarrow> nat \<Rightarrow> nat \<Rightarrow> ('v, 'c) beam_state \<Rightarrow> bool" where
  "beam_inv nb_nodes bsz v Bt st \<longleftrightarrow>
     length (bs_tours st) = bsz \<and> length (bs_mask st) = bsz \<and>
     length (bs_sum_scores st) = bsz \<and>
     (\<forall>b<bsz.
        length (bs_tours st ! b) = Bt \<and> length (bs_mask st ! b) = Bt \<and>
        length (bs_sum_scores st ! b) = Bt \<and>
        (\<forall>i<Bt. length (bs_tours st ! b ! i) = nb_nodes \<and>
                visited_ok nb_nodes (bs_mask st ! b ! i) (take v (bs_tours st ! b ! i)) \<and>
                bs_sum_scores st ! b ! i \<noteq> None))"

text \<open>The number of beams of every batch row of a beam state.\<close>

definition beam_count :: "('v, 'c) beam_state \<Rightarrow> nat \<Rightarrow> bool" where
  "beam_count st Bt \<longleftrightarrow>
     list_all (\<lambda>r. length r = Bt) (bs_tours st) \<and>
     list_all (\<lambda>r. length r = Bt) (bs_mask st) \<and>
     list_all (\<lambda>r. length r = Bt) (bs_sum_scores st)"

text \<open>Mask \<open>m'\<close> has every visited entry of mask \<open>m\<close>.\<close>

definition mask_le :: "bool list \<Rightarrow> bool list \<Rightarrow> bool" where
  "mask_le m m' \<longleftrightarrow> length m' = length m \<and> (\<forall>n<length m. m ! n \<longrightarrow> m' ! n)"

text \<open>
  A layer whose caches hold \<open>R\<close> rows of \<open>n\<close> entries each, with a window the truncation
  implements.
\<close>

definition layer_ready :: "('v, 'c) decoder_layer \<Rightarrow> nat \<Rightarrow> int \<Rightarrow> bool" where
  "layer_ready lay R n \<longleftrightarrow>
     positive_window (segm_len lay) \<and> cache_rows_length lay n \<and>
     map_option length (K_sa lay) = Some R \<and> map_option length (V_sa lay) = Some R"

text \<open>
  The operands of a decode that fit together: a non-empty batch, \<open>nb_nodes + 1\<close> encoded
  vectors per batch row, one row of cross-attention keys and values per batch row with
  \<open>nb_nodes + 1\<close> key vectors in every block, a table of positional encodings that reaches
  index \<open>nb_nodes\<close>, and layers with a positive window or none.
\<close>

definition wf_decode :: "('v, keys) TSP_net \<Rightarrow> nat \<Rightarrow> 'v list list \<Rightarrow> (nat \<Rightarrow> keys) list \<Rightarrow>
    (nat \<Rightarrow> keys) list \<Rightarrow> ('v, keys) decoder_net \<Rightarrow> bool" where
  "wf_decode net nb_nodes h_encoder K_att V_att dec \<longleftrightarrow>
     0 < length h_encoder \<and> list_all (\<lambda>r. length r = nb_nodes + 1) h_encoder \<and>
     length K_att = length h_encoder \<and> length V_att = length h_encoder \<and>
     list_all (\<lambda>r. \<forall>l. length (r l) = nb_nodes + 1) K_att \<and>
     nb_nodes < length (PE net) \<and>
     list_all (\<lambda>lay. positive_window (segm_len lay)) (decoder_layers dec)"

text \<open>
  The shapes of a beam state of \<open>bsz\<close> batch rows with \<open>Bt\<close> beams each after step \<open>t\<close>.
\<close>

definition beam_shape :: "nat \<Rightarrow> nat \<Rightarrow> nat \<Rightarrow> nat \<Rightarrow> ('v, keys) beam_state \<Rightarrow> bool" where
  "beam_shape nb_nodes bsz t Bt st \<longleftrightarrow>
     length (bs_h_t st) = bsz \<and> list_all (\<lambda>r. length r = Bt) (bs_h_t st) \<and>
     length (bs_mask st) = bsz \<and>
     list_all (\<lambda>r. length r = Bt \<and> list_all (\<lambda>m. length m = nb_nodes + 1) r) (bs_mask st) \<and>
     length (bs_tours st) = bsz \<and>
     list_all (\<lambda>r. length r = Bt \<and> list_all (\<lambda>tr. length tr = nb_nodes) r) (bs_tours st) \<and>
     length (bs_sum_scores st) = bsz \<and> list_all (\<lambda>r. length r = Bt) (bs_sum_scores st) \<and>
     length (bs_K_att st) = bsz * Bt \<and> length (bs_V_att st) = bsz * Bt \<and>
     list_all (\<lambda>lay. layer_ready lay (bsz * Bt) (key_len_of (segm_len lay) t))
       (decoder_layers (bs_decoder st)) \<and>
     list_all (\<lambda>r. \<forall>l. length (r l) = nb_nodes + 1) (bs_K_att st)"

section \<open>Rules for evaluating the model on concrete inputs\<close>

lemma list_update_numeral: "(x # xs)[numeral k := y] = x # xs[pred_numeral k := y]"
  by (simp add: numeral_eq_Suc)

lemma replicate_numeral: "replicate (numeral k) x = x # replicate (pred_numeral k) x"
  by (simp add: numeral_eq_Suc)

lemma ln_add_pos: "0 < a \<Longrightarrow> 0 < b \<Longrightarrow> ln a + ln b = ln (a * b)" for a b :: real
  by (simp add: ln_mult)

lemma ln_twice_pos: "0 < a \<Longrightarrow> 2 * ln a = ln (a * a)" for a :: real
  by (simp add: ln_mult)

lemmas eval_rules = ln_add_pos ln_twice_pos slice_from_def
  example_net_def example_layer_def example_decoder_layer_def example_probs_def
  example_weights_def example_ranked_def example_keys_def
  start_query_def start_mask_def gather_rows_def index_t_def set_true_def
  decoder_forward_def decoder_reset_def reset_selfatt_keys_values_def layer_forward_def
  truncate_cache_def cat_cache_def choose_next_def argmax_def argsort_desc_def topk_def
  log_t_def score_add_def stack_dim1_def sum_scores_row_def
  decoder_repeat_def repeat_selfatt_keys_values_def repeat_interleave_def
  decoder_reorder_def reorder_selfatt_keys_values_def reorder_cache_def view4_def
  gather_beams_def key_len_of_def next_queries_def mark_visited_def write_step_def
  write_entry_def view_beams_def beam_step_def beam_step0_def beam_expand_def
  beam_select_def
  greedy_step_def upt_conv_Cons Let_def numeral_2_eq_2[symmetric] list_update_numeral
  replicate_numeral

section \<open>Properties of the tour length evaluator\<close>

lemma seq_e_map_Inr: "seq_e (map Inr vs) = Inr vs"
  by (induction vs) auto

lemma column_ok:
  assumes "list_all (\<lambda>tr. length tr = n \<and>
             list_all (\<lambda>c. - int n \<le> c \<and> c < int n) tr) tour"
    and "i < n"
  shows "\<exists>col. column tour i = Inr col \<and> length col = length tour \<and>
           list_all (\<lambda>c. - int n \<le> c \<and> c < int n) col"
  using assms
proof (induction tour)
  case Nil
  then show ?case by (simp add: column_def)
next
  case (Cons tr tour)
  then obtain col where c: "column tour i = Inr col" "length col = length tour"
     "list_all (\<lambda>c. - int n \<le> c \<and> c < int n) col" by auto
  from Cons.prems have l: "length tr = n"
    and a: "list_all (\<lambda>c. - int n \<le> c \<and> c < int n) tr" by auto
  from l Cons.prems(2) have "index_t tr (int i) = Inr (tr ! i)"
    by (simp add: index_t_def Let_def)
  moreover from a l Cons.prems(2) have "- int n \<le> tr ! i \<and> tr ! i < int n"
    by (simp add: list_all_length)
  ultimately show ?case using c by (simp add: column_def)
qed

lemma gather_ok:
  assumes "list_all (\<lambda>xs. length xs = n) x" and "length col = length x"
    and "list_all (\<lambda>c. - int n \<le> c \<and> c < int n) col"
  shows "\<exists>cs. gather_cities x col = Inr cs \<and> length cs = length x"
  using assms
proof (induction x arbitrary: col)
  case Nil
  then show ?case by (simp add: gather_cities_def)
next
  case (Cons xs x)
  then obtain c col' where col: "col = c # col'" by (cases col) auto
  with Cons.prems have "\<exists>v. index_t xs c = Inr v"
    by (auto simp: index_t_def Let_def)
  then obtain v where v: "index_t xs c = Inr v" ..
  from Cons col obtain cs where "gather_cities x col' = Inr cs" "length cs = length x"
    using Cons.IH[of col'] Cons.prems by auto
  with v col Cons.prems(2) show ?case by (simp add: gather_cities_def)
qed

text \<open>
  On well-shaped inputs the loop never raises, and once it has run at least one
  iteration \<open>current_cities\<close> is assigned.
\<close>

lemma length_loop_ok:
  assumes "list_all (\<lambda>xs. length xs = n) x"
    and "list_all (\<lambda>tr. length tr = n \<and>
           list_all (\<lambda>c. - int n \<le> c \<and> c < int n) tr) tour"
    and "length tour = length x" and "\<forall>i\<in>set is. i < n"
    and "length prev = length x" and "length L = length x"
    and "is = [] \<longrightarrow> (\<exists>c. cur = Some c \<and> length c = length x)"
  shows "\<exists>c L'. length_loop x tour is cur prev L = Inr (Some c, L') \<and>
           length c = length x \<and> length L' = length x"
  using assms
proof (induction "is" arbitrary: cur prev L)
  case Nil
  then show ?case by auto
next
  case (Cons i "is")
  from column_ok[OF Cons.prems(2), of i] Cons.prems(4) obtain col where
    col: "column tour i = Inr col" "length col = length tour"
      "list_all (\<lambda>c. - int n \<le> c \<and> c < int n) col"
    by auto
  from gather_ok[OF Cons.prems(1) _ col(3)] col(2) Cons.prems(3) obtain cs where
    cs: "gather_cities x col = Inr cs" "length cs = length x" by auto
  have ad: "add_inplace L (map2 dist cs prev) = Inr (map2 (+) L (map2 dist cs prev))"
    using Cons.prems(5,6) cs(2) by (simp add: add_inplace_def)
  have "\<exists>c L'. length_loop x tour is (Some cs) cs (map2 (+) L (map2 dist cs prev))
           = Inr (Some c, L') \<and> length c = length x \<and> length L' = length x"
    using Cons.prems cs by (intro Cons.IH) auto
  with col cs ad show ?case by simp
qed

text \<open>
  Claim C10. \<open>compute_tour_length\<close> is total only from two nodes on: on every
  well-shaped input with \<open>nb_nodes \<ge> 2\<close> it returns one length per batch row; with
  \<open>nb_nodes = 1\<close> the loop \<open>range(1, nb_nodes)\<close> is empty, the closing edge reads the
  unassigned \<open>current_cities\<close>, and the call raises instead of returning 0.
\<close>

theorem compute_tour_length_total_from_two:
  assumes "wf_tour_input nb_nodes x tour"
  shows "(2 \<le> nb_nodes \<longrightarrow>
           (\<exists>L. compute_tour_length nb_nodes x tour = Inr L \<and> length L = length x))
       \<and> (nb_nodes = 1 \<longrightarrow> compute_tour_length nb_nodes x tour = Inl UnboundLocalError)"
proof -
  from assms have wf: "length tour = length x" "list_all (\<lambda>xs. length xs = nb_nodes) x"
    "list_all (\<lambda>tr. length tr = nb_nodes \<and>
       list_all (\<lambda>c. - int nb_nodes \<le> c \<and> c < int nb_nodes) tr) tour"
    by (auto simp: wf_tour_input_def)
  have first: "\<exists>col fs. column tour 0 = Inr col \<and> gather_cities x col = Inr fs \<and>
      length fs = length x" if "0 < nb_nodes"
  proof -
    from column_ok[OF wf(3) that] obtain col where
      col: "column tour 0 = Inr col" "length col = length tour"
        "list_all (\<lambda>c. - int nb_nodes \<le> c \<and> c < int nb_nodes) col"
      by auto
    from gather_ok[OF wf(2) _ col(3)] col(2) wf(1) obtain fs where
      "gather_cities x col = Inr fs" "length fs = length x" by auto
    with col show ?thesis by blast
  qed
  show ?thesis
  proof (intro conjI impI)
    assume n: "2 \<le> nb_nodes"
    with first obtain col fs where
      fs: "column tour 0 = Inr col" "gather_cities x col = Inr fs" "length fs = length x"
      by auto
    have "[1..<nb_nodes] \<noteq> []" using n by simp
    then have "\<exists>c L'. length_loop x tour [1..<nb_nodes] None fs (replicate (length x) 0)
        = Inr (Some c, L') \<and> length c = length x \<and> length L' = length x"
      using wf fs by (intro length_loop_ok[where n=nb_nodes]) auto
    then obtain c L' where
      "length_loop x tour [1..<nb_nodes] None fs (replicate (length x) 0) = Inr (Some c, L')"
      "length c = length x" "length L' = length x" by blast
    with fs wf(1)
    show "\<exists>L. compute_tour_length nb_nodes x tour = Inr L \<and> length L = length x"
      by (simp add: compute_tour_length_def add_inplace_def)
  next
    assume n: "nb_nodes = 1"
    with first obtain col fs where
      "column tour 0 = Inr col" "gather_cities x col = Inr fs" "length fs = length x"
      by auto
    with n wf(1) show "compute_tour_length nb_nodes x tour = Inl UnboundLocalError"
      by (simp add: compute_tour_length_def)
  qed
qed

theorem compute_tour_length_total_from_two_witness:
  "wf_tour_input 2 [[(0, 0), (3, 4)]] [[0, 1]] \<and>
   (\<exists>L. compute_tour_length 2 [[(0, 0), (3, 4)]] [[0, 1]] = Inr L \<and> length L = 1) \<and>
   wf_tour_input 1 [[(0, 0)]] [[0]] \<and>
   compute_tour_length 1 [[(0, 0)]] [[0]] = Inl UnboundLocalError"
proof -
  have a: "wf_tour_input 2 [[(0, 0), (3, 4)]] [[0, 1]]"
    by (simp add: wf_tour_input_def)
  have b: "wf_tour_input 1 [[(0, 0)]] [[0]]"
    by (simp add: wf_tour_input_def)
  show ?thesis
    using a b compute_tour_length_total_from_two [OF a]
      compute_tour_length_total_from_two [OF b]
    by simp
qed

text \<open>The unit square of the specification, walked along its sides, has length 4.\<close>

lemma compute_tour_length_square:
  "compute_tour_length 4 [[(0, 0), (1, 0), (1, 1), (0, 1)]] [[0, 1, 2, 3]] = Inr [4]"
  by (simp add: compute_tour_length_def column_def gather_cities_def add_inplace_def
      index_t_def dist_def upt_conv_Cons)

text \<open>
  A tour with a single row is broadcast over the batch: both instances are walked along
  the tour \<open>[0, 1]\<close>.
\<close>

lemma compute_tour_length_broadcast:
  "compute_tour_length 2 [[(0, 0), (3, 4)], [(0, 0), (6, 8)]] [[0, 1]] = Inr [10, 20]"
  by (simp add: compute_tour_length_def column_def gather_cities_def add_inplace_def
      index_t_def dist_def upt_conv_Cons)

text \<open>
  Claim C6. The evaluator is meant to return, for every coordinate batch and tour, the
  sum of the consecutive distances plus the closing edge. For a single city that sum is
  0 (the closing edge from the city to itself), but the code raises: the closing edge is
  computed from \<open>current_cities\<close>, which only the loop body assigns.
\<close>

theorem compute_tour_length_single_city_raises:
  "compute_tour_length 1 [[(0, 0)]] [[0]] = Inl UnboundLocalError"
  by (simp add: compute_tour_length_def column_def gather_cities_def index_t_def)

section \<open>Properties of the self-attention cache\<close>

lemma slice_from_window_length:
  "1 \<le> s \<Longrightarrow> int (length (slice_from (- s) xs)) = min (int (length xs)) s"
  by (auto simp: slice_from_def Let_def)

lemma truncate_cache_rows:
  assumes "list_all (\<lambda>r. int (length r) = n) K" "positive_window sl"
  shows "list_all (\<lambda>r. int (length r) = (case sl of None \<Rightarrow> n | Some s \<Rightarrow> min n s))
           (truncate_cache sl K)"
  using assms
  by (cases sl)
    (auto simp: truncate_cache_def list_all_iff slice_from_window_length positive_window_def)

lemma cat_cache_rows:
  assumes "cat_cache (Some K) (map (\<lambda>h. [f h]) h_t) = Inr K'"
    "list_all (\<lambda>r. int (length r) = n) K"
  shows "list_all (\<lambda>r. int (length r) = n + 1) K'"
proof -
  from assms(1) have len: "length K = length h_t" and K': "K' = map2 (@) K (map (\<lambda>h. [f h]) h_t)"
    by (auto simp: cat_cache_def split: if_splits)
  show ?thesis unfolding K' using assms(2)
    by (auto simp: list_all_iff set_zip)
qed

lemma layer_forward_inv:
  assumes "layer_forward lay h_t K_att V_att msk = Inr (lay', out)"
    and "cache_inv lay j"
    and "positive_window (segm_len lay)"
  shows "cache_inv lay' (Suc j) \<and> segm_len lay' = segm_len lay"
proof (cases "K_sa lay")
  case None
  with assms(2) have j0: "j = 0"
    by (auto simp: cache_inv_def cache_rows_length_def split: if_splits)
  from None assms(1) have l: "lay' = lay\<lparr>K_sa := Some (truncate_cache (segm_len lay) (map (\<lambda>h. [Wk_selfatt lay h]) h_t)),
       V_sa := Some (truncate_cache (segm_len lay) (map (\<lambda>h. [Wv_selfatt lay h]) h_t))\<rparr>"
    by (auto simp: layer_forward_def Let_def split: if_splits)
  have a: "list_all (\<lambda>r. int (length r) = 1) (map (\<lambda>h. [f h]) h_t)" for f :: "'a \<Rightarrow> 'a"
    by (simp add: list_all_iff)
  have e: "(case segm_len lay of None \<Rightarrow> 1 | Some s \<Rightarrow> min 1 s)
      = cache_length_spec (segm_len lay) 0"
    using assms(3)
    by (cases "segm_len lay") (auto simp: cache_length_spec_def positive_window_def)
  from truncate_cache_rows[OF a assms(3)]
  show ?thesis unfolding l e j0
    by (simp add: cache_inv_def cache_rows_length_def)
next
  case (Some K)
  with assms(2) have j: "j > 0" by (auto simp: cache_inv_def split: if_splits)
  with assms(2) Some obtain V where V: "V_sa lay = Some V"
    and rK: "list_all (\<lambda>r. int (length r) = cache_length_spec (segm_len lay) (j - 1)) K"
    and rV: "list_all (\<lambda>r. int (length r) = cache_length_spec (segm_len lay) (j - 1)) V"
    by (auto simp: cache_inv_def cache_rows_length_def split: option.splits)
  from assms(1) Some V obtain K1 V1 where
    K1: "cat_cache (Some K) (map (\<lambda>h. [Wk_selfatt lay h]) h_t) = Inr K1"
    and V1: "cat_cache (Some V) (map (\<lambda>h. [Wv_selfatt lay h]) h_t) = Inr V1"
    and l: "lay' = lay\<lparr>K_sa := Some (truncate_cache (segm_len lay) K1),
       V_sa := Some (truncate_cache (segm_len lay) V1)\<rparr>"
    by (auto simp: layer_forward_def Let_def split: if_splits sum.splits)
  note tK = truncate_cache_rows[OF cat_cache_rows[OF K1 rK] assms(3)]
  note tV = truncate_cache_rows[OF cat_cache_rows[OF V1 rV] assms(3)]
  have e: "(case segm_len lay of None \<Rightarrow> cache_length_spec (segm_len lay) (j - 1) + 1
      | Some s \<Rightarrow> min (cache_length_spec (segm_len lay) (j - 1) + 1) s)
      = cache_length_spec (segm_len lay) j"
    using j assms(3)
    by (cases "segm_len lay") (auto simp: cache_length_spec_def min_def positive_window_def)
  from tK tV show ?thesis unfolding l e
    by (simp add: cache_inv_def cache_rows_length_def)
qed

lemma run_forward_inv:
  assumes "run_forward lay calls = Inr lay'"
    and "cache_inv lay j"
    and "positive_window (segm_len lay)"
  shows "cache_inv lay' (j + length calls) \<and> segm_len lay' = segm_len lay"
  using assms
proof (induction calls arbitrary: lay j)
  case Nil
  then show ?case by simp
next
  case (Cons c calls)
  obtain h_t K_att V_att msk where c: "c = (h_t, K_att, V_att, msk)" by (cases c) auto
  with Cons.prems(1) obtain lay1 out where
    f: "layer_forward lay h_t K_att V_att msk = Inr (lay1, out)"
    and r: "run_forward lay1 calls = Inr lay'"
    by (auto split: sum.splits)
  from layer_forward_inv[OF f Cons.prems(2,3)]
  have i: "cache_inv lay1 (Suc j)" and s: "segm_len lay1 = segm_len lay" by auto
  from Cons.IH[OF r i] s Cons.prems(3) show ?case by simp
qed

text \<open>
  Claim C2 (as amended). After the \<open>(t+1)\<close>-th call of \<open>forward\<close> since the last reset,
  every row of \<open>K_sa\<close> and of \<open>V_sa\<close> has length \<open>min(t+1, segm_len)\<close> when a window
  \<open>segm_len \<ge> 1\<close> is configured, and \<open>t+1\<close> without a window.
\<close>

theorem cache_length_after_forward_calls:
  assumes "run_forward (reset_selfatt_keys_values lay) calls = Inr lay'"
    and "length calls = Suc t"
    and "positive_window (segm_len lay)"
  shows "cache_rows_length lay' (cache_length_spec (segm_len lay) t)"
proof -
  have "cache_inv (reset_selfatt_keys_values lay) 0"
    by (simp add: cache_inv_def reset_selfatt_keys_values_def)
  moreover have s: "segm_len (reset_selfatt_keys_values lay) = segm_len lay"
    by (simp add: reset_selfatt_keys_values_def)
  ultimately have "cache_inv lay' (0 + length calls) \<and> segm_len lay' = segm_len lay"
    using run_forward_inv[OF assms(1), of 0] assms(3) by simp
  then have c: "cache_inv lay' (Suc t)" and e: "segm_len lay' = segm_len lay"
    using assms(2) by simp_all
  from c show ?thesis unfolding cache_inv_def e by simp
qed

theorem cache_length_after_forward_calls_witness:
  "run_forward (reset_selfatt_keys_values (example_layer (Some 2)))
      [([5], [()], [()], [[False]]), ([6], [()], [()], [[False]]),
       ([7], [()], [()], [[True]])]
     = Inr ((example_layer (Some 2))\<lparr>K_sa := Some [[7, 8]], V_sa := Some [[8, 9]]\<rparr>) \<and>
   length [([5::nat], [()], [()], [[False]]), ([6], [()], [()], [[False]]),
       ([7], [()], [()], [[True]])] = Suc 2 \<and>
   positive_window (segm_len (example_layer (Some 2))) \<and>
   cache_rows_length ((example_layer (Some 2))\<lparr>K_sa := Some [[7, 8]], V_sa := Some [[8, 9]]\<rparr>)
     (cache_length_spec (segm_len (example_layer (Some 2))) 2)"
proof -
  have r: "run_forward (reset_selfatt_keys_values (example_layer (Some 2)))
      [([5], [()], [()], [[False]]), ([6], [()], [()], [[False]]),
       ([7], [()], [()], [[True]])]
     = Inr ((example_layer (Some 2))\<lparr>K_sa := Some [[7, 8]], V_sa := Some [[8, 9]]\<rparr>)"
    by (simp add: example_layer_def reset_selfatt_keys_values_def layer_forward_def
        truncate_cache_def slice_from_def cat_cache_def)
  have p: "positive_window (segm_len (example_layer (Some 2)))"
    by (simp add: example_layer_def positive_window_def)
  from cache_length_after_forward_calls [OF r _ p, of 2] r p show ?thesis by simp
qed

text \<open>
  With the window \<open>segm_len = 0\<close> the claim as stated fails: \<open>K_sa[:, -0:, :]\<close> keeps the
  whole cache, so after the first call the cache has length 1, not \<open>min(1, 0) = 0\<close>.
\<close>

theorem cache_length_zero_window_counterexample:
  "run_forward (reset_selfatt_keys_values (example_layer (Some 0)))
      [([5], [()], [()], [[False]])]
     = Inr ((example_layer (Some 0))\<lparr>K_sa := Some [[6]], V_sa := Some [[7]]\<rparr>) \<and>
   \<not> cache_rows_length ((example_layer (Some 0))\<lparr>K_sa := Some [[6]], V_sa := Some [[7]]\<rparr>)
       (cache_length_spec (segm_len (example_layer (Some 0))) 0)"
  by (simp add: example_layer_def reset_selfatt_keys_values_def layer_forward_def
      truncate_cache_def slice_from_def cache_rows_length_def cache_length_spec_def)

section \<open>Properties of the cache reordering\<close>

lemma seq_e_map_ok:
  "(\<And>x. x \<in> set xs \<Longrightarrow> f x = Inr (g x)) \<Longrightarrow> seq_e (map f xs) = Inr (map g xs)"
  by (induction xs) auto

lemma concat_uniform_length:
  "list_all (\<lambda>r. length r = n) K \<Longrightarrow> length (concat K) = length K * n"
  by (induction K) auto

lemma block_of_concat:
  "list_all (\<lambda>r. length r = n) K \<Longrightarrow> k < length K \<Longrightarrow>
   take n (drop (k * n) (concat K)) = K ! k"
proof (induction K arbitrary: k)
  case Nil
  then show ?case by simp
next
  case (Cons r K)
  show ?case
  proof (cases k)
    case 0
    with Cons.prems show ?thesis by simp
  next
    case (Suc k')
    with Cons.prems have "take n (drop (k' * n) (concat K)) = K ! k'"
      by (intro Cons.IH) auto
    with Suc Cons.prems show ?thesis by (simp add: add.commute)
  qed
qed

lemma concat_nth_uniform:
  "list_all (\<lambda>r. length r = B) rows \<Longrightarrow> b < length rows \<Longrightarrow> i < B \<Longrightarrow>
   concat rows ! (b * B + i) = rows ! b ! i"
proof (induction rows arbitrary: b)
  case Nil
  then show ?case by simp
next
  case (Cons r rows)
  show ?case
  proof (cases b)
    case 0
    with Cons.prems show ?thesis by (simp add: nth_append)
  next
    case (Suc b')
    with Cons.prems have "concat rows ! (b' * B + i) = rows ! b' ! i"
      by (intro Cons.IH) auto
    with Suc Cons.prems show ?thesis by (simp add: nth_append)
  qed
qed

lemma view4_wf:
  assumes "list_all (\<lambda>r. length r = n) K" "length K = bsz * B2"
  shows "view4 bsz B2 (int n) K = Inr (map (\<lambda>b. map (\<lambda>j. K ! (b * B2 + j)) [0..<B2]) [0..<bsz])"
proof -
  have "int (length (concat K)) = int bsz * int B2 * int n"
    using concat_uniform_length[OF assms(1)] assms(2) by simp
  moreover have "take n (drop ((b * B2 + j) * n) (concat K)) = K ! (b * B2 + j)"
    if "b < bsz" "j < B2" for b j
  proof -
    have "b * B2 + j < bsz * B2"
    proof -
      have "b * B2 + j < b * B2 + B2" using that by simp
      also have "\<dots> = Suc b * B2" by simp
      also have "\<dots> \<le> bsz * B2" using that by (intro mult_le_mono1) simp
      finally show ?thesis .
    qed
    with assms show ?thesis by (intro block_of_concat) auto
  qed
  ultimately show ?thesis by (simp add: view4_def)
qed

lemma gather_beams_wf:
  assumes "length tmp = length idx"
    "\<And>b i. b < length idx \<Longrightarrow> i \<in> set (idx ! b) \<Longrightarrow> i < length (tmp ! b)"
  shows "gather_beams tmp idx = Inr (map (\<lambda>b. map (\<lambda>i. tmp ! b ! i) (idx ! b)) [0..<length idx])"
proof -
  have z: "zip tmp idx = map (\<lambda>b. (tmp ! b, idx ! b)) [0..<length idx]"
    using assms(1) by (intro nth_equalityI) auto
  have "seq_e (map (\<lambda>i. index_t (tmp ! b) (int i)) (idx ! b)) = Inr (map (\<lambda>i. tmp ! b ! i) (idx ! b))"
    if "b < length idx" for b
    using assms(2)[OF that] by (intro seq_e_map_ok) (auto simp: index_t_def Let_def)
  then show ?thesis
    unfolding gather_beams_def z map_map
    by (intro seq_e_map_ok) (auto simp: o_def)
qed

lemma reorder_cache_wf:
  assumes "list_all (\<lambda>r. length r = n) K" "length K = bsz * B2" "length idx = bsz"
    "list_all (\<lambda>ids. length ids = B \<and> list_all (\<lambda>i. i < B2) ids) idx"
  shows "\<exists>K'. reorder_cache bsz B2 (int n) idx K = Inr K' \<and> length K' = bsz * B \<and>
     (\<forall>b<bsz. \<forall>i<B. K' ! (b * B + i) = K ! (b * B2 + idx ! b ! i))"
proof -
  let ?tmp = "map (\<lambda>b. map (\<lambda>j. K ! (b * B2 + j)) [0..<B2]) [0..<bsz]"
  let ?G = "map (\<lambda>b. map (\<lambda>i. ?tmp ! b ! i) (idx ! b)) [0..<length idx]"
  have v: "view4 bsz B2 (int n) K = Inr ?tmp" by (rule view4_wf[OF assms(1,2)])
  have idx: "length (idx ! b) = B" "\<And>i. i \<in> set (idx ! b) \<Longrightarrow> i < B2" if "b < bsz" for b
    using assms(3,4) that by (auto simp: list_all_length in_set_conv_nth)
  have g: "gather_beams ?tmp idx = Inr ?G"
    using assms(3) idx by (intro gather_beams_wf) auto
  have r: "reorder_cache bsz B2 (int n) idx K = Inr (concat ?G)"
    by (simp add: reorder_cache_def v g)
  have u: "list_all (\<lambda>r. length r = B) ?G"
    using idx assms(3) by (simp add: list_all_iff)
  have len: "length (concat ?G) = bsz * B"
    using concat_uniform_length[OF u] assms(3) by simp
  have "concat ?G ! (b * B + i) = K ! (b * B2 + idx ! b ! i)" if "b < bsz" "i < B" for b i
  proof -
    have "concat ?G ! (b * B + i) = ?G ! b ! i"
      using that assms(3) by (intro concat_nth_uniform[OF u]) auto
    also have "\<dots> = ?tmp ! b ! (idx ! b ! i)"
      using that assms(3) idx(1)[OF that(1)] by simp
    also have "\<dots> = K ! (b * B2 + idx ! b ! i)"
    proof -
      have "idx ! b ! i < B2" using idx[OF that(1)] that(2) by (metis nth_mem)
      with that show ?thesis by simp
    qed
    finally show ?thesis .
  qed
  with r len show ?thesis by blast
qed

text \<open>
  Claim C3. On a layer whose cache holds \<open>B2\<close> per-beam sequences for each batch row,
  \<open>reorder_selfatt_keys_values(t, idx_top_beams)\<close> returns, and the rebuilt cache holds at
  beam position \<open>i\<close> of batch row \<open>b\<close> exactly the sequence of the source beam
  \<open>idx_top_beams[b][i]\<close>, for keys and values, for every \<open>b < bsz\<close> and \<open>i < B\<close>.
\<close>

theorem reorder_selfatt_keys_values_gathers:
  assumes "K_sa lay = Some K" and "V_sa lay = Some V"
    and "wf_beam_cache K bsz B2 (key_len_of (segm_len lay) t)"
    and "wf_beam_cache V bsz B2 (key_len_of (segm_len lay) t)"
    and "wf_beam_idx idx bsz B B2"
  shows "\<exists>K' V'. reorder_selfatt_keys_values lay t idx
             = Inr (lay\<lparr>K_sa := Some K', V_sa := Some V'\<rparr>) \<and>
           length K' = bsz * B \<and> length V' = bsz * B \<and>
           (\<forall>b<bsz. \<forall>i<B. K' ! (b * B + i) = K ! (b * B2 + idx ! b ! i) \<and>
                          V' ! (b * B + i) = V ! (b * B2 + idx ! b ! i))"
proof -
  define n where "n = nat (key_len_of (segm_len lay) t)"
  from assms(3) have kl: "key_len_of (segm_len lay) t = int n"
    by (simp add: n_def wf_beam_cache_def)
  from assms(3,4) have rows: "list_all (\<lambda>r. length r = n) K" "list_all (\<lambda>r. length r = n) V"
    and len: "length K = bsz * B2" "length V = bsz * B2"
    by (auto simp: wf_beam_cache_def kl)
  from assms(5) have idx: "0 < bsz" "length idx = bsz"
    "list_all (\<lambda>ids. length ids = B \<and> list_all (\<lambda>i. i < B2) ids) idx"
    by (auto simp: wf_beam_idx_def)
  from reorder_cache_wf[OF rows(1) len(1) idx(2,3)] obtain K' where
    K': "reorder_cache bsz B2 (int n) idx K = Inr K'" "length K' = bsz * B"
      "\<forall>b<bsz. \<forall>i<B. K' ! (b * B + i) = K ! (b * B2 + idx ! b ! i)" by blast
  from reorder_cache_wf[OF rows(2) len(2) idx(2,3)] obtain V' where
    V': "reorder_cache bsz B2 (int n) idx V = Inr V'" "length V' = bsz * B"
      "\<forall>b<bsz. \<forall>i<B. V' ! (b * B + i) = V ! (b * B2 + idx ! b ! i)" by blast
  have d: "length K div bsz = B2" using len(1) idx(1) by simp
  have "reorder_selfatt_keys_values lay t idx = Inr (lay\<lparr>K_sa := Some K', V_sa := Some V'\<rparr>)"
    using assms(1,2) idx(1,2) K'(1) V'(1)
    by (simp add: reorder_selfatt_keys_values_def Let_def kl d)
  with K'(2,3) V'(2,3) show ?thesis by blast
qed

theorem reorder_selfatt_keys_values_gathers_witness:
  "wf_beam_cache [[1, 2], [3, 4 :: nat]] 1 2 (key_len_of None 1) \<and>
   wf_beam_cache [[5, 6], [7, 8 :: nat]] 1 2 (key_len_of None 1) \<and>
   wf_beam_idx [[1, 1, 0]] 1 3 2 \<and>
   reorder_selfatt_keys_values
     ((example_layer None)\<lparr>K_sa := Some [[1, 2], [3, 4]], V_sa := Some [[5, 6], [7, 8]]\<rparr>)
     1 [[1, 1, 0]]
   = Inr ((example_layer None)\<lparr>K_sa := Some [[3, 4], [3, 4], [1, 2]],
                               V_sa := Some [[7, 8], [7, 8], [5, 6]]\<rparr>)"
proof -
  let ?lay = "(example_layer None)\<lparr>K_sa := Some [[1, 2], [3, 4]],
                                   V_sa := Some [[5, 6], [7, 8]]\<rparr>"
  have s: "segm_len ?lay = None" by (simp add: example_layer_def)
  have k: "wf_beam_cache [[1, 2], [3, 4 :: nat]] 1 2 (key_len_of (segm_len ?lay) 1)"
    unfolding s by (simp add: wf_beam_cache_def key_len_of_def)
  have v: "wf_beam_cache [[5, 6], [7, 8 :: nat]] 1 2 (key_len_of (segm_len ?lay) 1)"
    unfolding s by (simp add: wf_beam_cache_def key_len_of_def)
  have i: "wf_beam_idx [[1, 1, 0]] 1 3 2" by (simp add: wf_beam_idx_def)
  have r: "reorder_selfatt_keys_values ?lay 1 [[1, 1, 0]]
      = Inr ((example_layer None)\<lparr>K_sa := Some [[3, 4], [3, 4], [1, 2]],
                               V_sa := Some [[7, 8], [7, 8], [5, 6]]\<rparr>)"
    by (simp add: reorder_selfatt_keys_values_def reorder_cache_def view4_def
        gather_beams_def index_t_def key_len_of_def example_layer_def upt_conv_Cons)
  from reorder_selfatt_keys_values_gathers [OF _ _ k v i] k v i r show ?thesis
    unfolding s by simp
qed

section \<open>Properties of the attention primitive\<close>

lemma exp32_nonneg: "0 \<le> exp32 x"
  by (simp add: exp32_def)

lemma softmax_length: "length (softmax ls) = length ls"
  by (simp add: softmax_def Let_def)

lemma softmax_nth:
  "i < length ls \<Longrightarrow> softmax ls ! i
     = exp32 (ls ! i - Max (set ls)) / sum_list (map (\<lambda>w. exp32 (w - Max (set ls))) ls)"
  by (simp add: softmax_def Let_def)

lemma sum_list_ge_member:
  fixes xs :: "real list"
  assumes "\<forall>x\<in>set xs. 0 \<le> x" "y \<in> set xs"
  shows "y \<le> sum_list xs"
  using assms
proof (induction xs)
  case Nil
  then show ?case by simp
next
  case (Cons x xs)
  from Cons.prems(1) have nn: "0 \<le> sum_list xs" by (intro sum_list_nonneg) simp
  show ?case
  proof (cases "y = x")
    case True
    with nn show ?thesis by simp
  next
    case False
    with Cons have "y \<le> sum_list xs" by simp
    moreover from Cons.prems(1) have "0 \<le> x" by simp
    ultimately show ?thesis by simp
  qed
qed

lemma softmax_denominator:
  assumes "ls \<noteq> []"
  shows "1 \<le> sum_list (map (\<lambda>w. exp32 (w - Max (set ls))) ls)"
proof -
  from assms have "Max (set ls) \<in> set ls" by (intro Max_in) simp_all
  then have "exp32 (Max (set ls) - Max (set ls)) \<in> set (map (\<lambda>w. exp32 (w - Max (set ls))) ls)"
    by force
  then have "1 \<in> set (map (\<lambda>w. exp32 (w - Max (set ls))) ls)" by (simp add: exp32_def)
  moreover have "\<forall>x\<in>set (map (\<lambda>w. exp32 (w - Max (set ls))) ls). 0 \<le> x"
    by (auto simp: exp32_nonneg)
  ultimately show ?thesis by (intro sum_list_ge_member) 
qed

lemma softmax_zero:
  assumes "i < length ls" "ls ! i < Max (set ls) - 104"
  shows "softmax ls ! i = 0"
  using assms by (simp add: softmax_nth exp32_def)

lemma softmax_pos:
  assumes "i < length ls" "Max (set ls) - 104 \<le> ls ! i"
  shows "0 < softmax ls ! i"
proof -
  from assms(1) have "ls \<noteq> []" by auto
  from softmax_denominator[OF this]
  have "0 < sum_list (map (\<lambda>w. exp32 (w - Max (set ls))) ls)" by simp
  moreover from assms(2) have "0 < exp32 (ls ! i - Max (set ls))" by (simp add: exp32_def)
  ultimately show ?thesis using assms(1) by (simp add: softmax_nth)
qed

lemma softmax_constant:
  assumes "i < length ls" "\<forall>j<length ls. ls ! j = c"
  shows "softmax ls ! i = 1 / real (length ls)"
proof -
  from assms(2) have ls: "ls = replicate (length ls) c"
    by (intro nth_equalityI) simp_all
  from assms(1) have n: "0 < length ls" by auto
  then have "set (replicate (length ls) c) = {c}" by simp
  with ls have M: "Max (set ls) = c" by (metis Max_singleton)
  have "map (\<lambda>w. exp32 (w - c)) (replicate (length ls) c) = replicate (length ls) 1"
    by (simp add: exp32_def)
  with ls have "map (\<lambda>w. exp32 (w - c)) ls = replicate (length ls) 1" by metis
  then have s: "sum_list (map (\<lambda>w. exp32 (w - c)) ls) = real (length ls)"
    by (simp add: sum_list_replicate)
  from assms have "ls ! i = c" by simp
  with assms(1) M s show ?thesis by (simp add: softmax_nth exp32_def)
qed

lemma masked_fill_nth:
  assumes "masked_fill (Some m) ws = Inr ls" "length m = length ws"
  shows "length ls = length ws"
    and "\<And>i. i < length ws \<Longrightarrow> ls ! i = (if m ! i then - 1000000000 else ws ! i)"
  using assms by (auto simp: masked_fill_def)

lemma clip_logits_length: "length (clip_logits c ws) = length ws"
  by (cases c) (simp_all add: clip_logits_def)

lemma clip_logits_bound:
  assumes "i < length ws" "\<bar>c\<bar> \<le> b"
  shows "- b \<le> clip_logits (Some c) ws ! i"
proof -
  have "\<bar>tanh (ws ! i)\<bar> \<le> 1" using tanh_real_bounds[of "ws ! i"] by (simp add: abs_le_iff less_imp_le)
  then have "\<bar>c * tanh (ws ! i)\<bar> \<le> \<bar>c\<bar> * 1" unfolding abs_mult by (intro mult_left_mono) simp_all
  with assms(2) have "\<bar>c * tanh (ws ! i)\<bar> \<le> b" by simp
  then have "- b \<le> c * tanh (ws ! i)" by (simp add: abs_le_iff)
  with assms(1) show ?thesis by (simp add: clip_logits_def)
qed

lemma masked_fill_entry:
  assumes "masked_fill (Some m) ws = Inr ls"
  shows "length ls = length ws"
    and "\<And>i. i < length ws \<Longrightarrow>
           ls ! i = (if mask_entry m (length ws) i then - 1000000000 else ws ! i)"
  using assms by (auto simp: masked_fill_def mask_entry_def split: if_splits)

text \<open>
  Claim C5 (as amended). When a mask is supplied and \<open>myMHA\<close> returns, the logit of every
  masked position is the finite value \<open>-1e9\<close>, written after the optional \<open>clip * tanh\<close>
  and before the softmax, while an unmasked position keeps its clipped logit. The weight
  of a masked position is exactly zero as soon as some unmasked position has a logit
  above \<open>-1e9 + 104\<close>, which is always so when a position is unmasked and a clip value
  below \<open>999999896\<close> in absolute value is given (the final decoder layer uses 10). When
  every position is masked, each of the \<open>n\<close> positions has the weight \<open>1/n\<close>.
\<close>

theorem myMHA_masked_logit_and_weight:
  assumes "myMHA_weights q K (Some m) clip_value = Inr ws"
    and "i < length K" and "mask_entry m (length K) i"
  shows "\<exists>ls. myMHA_logits q K (Some m) clip_value = Inr ls \<and> ws = softmax ls \<and>
           length ls = length K \<and> ls ! i = - 1000000000 \<and>
           (\<forall>j<length K. \<not> mask_entry m (length K) j \<longrightarrow>
              ls ! j = clip_logits clip_value (scaled_scores q K) ! j) \<and>
           ((\<exists>j<length K. \<not> mask_entry m (length K) j \<and> - 999999896 < ls ! j)
              \<longrightarrow> ws ! i = 0) \<and>
           ((\<exists>j<length K. \<not> mask_entry m (length K) j) \<and>
            (\<exists>c. clip_value = Some c \<and> \<bar>c\<bar> < 999999896) \<longrightarrow> ws ! i = 0) \<and>
           ((\<forall>j<length K. mask_entry m (length K) j) \<longrightarrow> ws ! i = 1 / real (length K))"
proof -
  let ?cl = "clip_logits clip_value (scaled_scores q K)"
  let ?n = "length K"
  from assms(1) obtain ls where l: "myMHA_logits q K (Some m) clip_value = Inr ls"
    and w: "ws = softmax ls"
    by (auto simp: myMHA_weights_def split: sum.splits)
  from l have mf: "masked_fill (Some m) ?cl = Inr ls" by (simp add: myMHA_logits_def)
  have lc: "length ?cl = ?n" by (simp add: clip_logits_length scaled_scores_def)
  note f = masked_fill_entry[OF mf, unfolded lc]
  from f(1) have ll: "length ls = ?n" .
  from f(2)[OF assms(2)] assms(3) have a: "ls ! i = - 1000000000" by simp
  have b: "ls ! j = ?cl ! j" if "j < ?n" "\<not> mask_entry m ?n j" for j
    using f(2)[OF that(1)] that(2) by simp
  have z: "ws ! i = 0" if "j < ?n" "- 999999896 < ls ! j" for j
  proof -
    from that(1) ll have "ls ! j \<in> set ls" by simp
    then have "ls ! j \<le> Max (set ls)" by (intro Max_ge) simp_all
    with that(2) a have "ls ! i < Max (set ls) - 104" by simp
    from softmax_zero[OF _ this] assms(2) ll w show ?thesis by simp
  qed
  have c: "ws ! i = 0"
    if "j < ?n" "\<not> mask_entry m ?n j" "clip_value = Some c" "\<bar>c\<bar> < 999999896" for j c
  proof -
    from that(1) have "j < length (scaled_scores q K)" by (simp add: scaled_scores_def)
    from clip_logits_bound[OF this order_refl, of c] that(3,4) b[OF that(1,2)]
    have "- 999999896 < ls ! j" by simp
    from z[OF that(1) this] show ?thesis .
  qed
  have d: "ws ! i = 1 / real ?n" if "\<forall>j<?n. mask_entry m ?n j"
  proof -
    from that f(2) ll have "\<forall>j<length ls. ls ! j = - 1000000000" by simp
    from softmax_constant[OF _ this, of i] assms(2) ll w show ?thesis by simp
  qed
  from l w ll a b z c d show ?thesis by blast
qed

theorem myMHA_masked_logit_and_weight_witness:
  "myMHA_weights [1, 2] [[1, 0], [2, - 1], [- 2, 1]] (Some [True, False, False]) (Some 10)
     = Inr [0, 1 / 2, 1 / 2] \<and>
   (0::nat) < length [[1, 0], [2, - 1], [- 2 :: real, 1]] \<and>
   mask_entry [True, False, False] (length [[1, 0], [2, - 1], [- 2 :: real, 1]]) 0 \<and>
   myMHA_logits [1, 2] [[1, 0], [2, - 1], [- 2, 1]] (Some [True, False, False]) (Some 10)
     = Inr [- 1000000000, 0, 0] \<and>
   (\<exists>ls. myMHA_logits [1, 2] [[1, 0], [2, - 1], [- 2, 1]] (Some [True, False, False]) (Some 10)
            = Inr ls \<and> ls ! 0 = - 1000000000) \<and>
   [0, 1 / 2, 1 / 2 :: real] ! 0 = 0"
proof -
  let ?K = "[[1, 0], [2, - 1], [- 2 :: real, 1]]"
  let ?m = "[True, False, False]"
  have l: "myMHA_logits [1, 2] ?K (Some ?m) (Some 10) = Inr [- 1000000000, 0, 0]"
    by (simp add: myMHA_logits_def masked_fill_def clip_logits_def scaled_scores_def dot_def)
  have w: "myMHA_weights [1, 2] ?K (Some ?m) (Some 10) = Inr [0, 1 / 2, 1 / 2]"
    by (simp add: myMHA_weights_def l softmax_def exp32_def Let_def)
  have i: "(0::nat) < length ?K" "mask_entry ?m (length ?K) 0"
    by (simp_all add: mask_entry_def)
  from myMHA_masked_logit_and_weight [OF w i] obtain ls where
    a: "myMHA_logits [1, 2] ?K (Some ?m) (Some 10) = Inr ls"
    and b: "ls ! 0 = - 1000000000"
    and c: "(\<exists>j<length ?K. \<not> mask_entry ?m (length ?K) j) \<and>
        (\<exists>c. Some (10::real) = Some c \<and> \<bar>c\<bar> < 999999896)
          \<longrightarrow> [0, 1 / 2, 1 / 2 :: real] ! 0 = 0"
    by blast
  have "\<exists>j<length ?K. \<not> mask_entry ?m (length ?K) j"
    by (intro exI [of _ 1]) (simp add: mask_entry_def)
  with c have "[0, 1 / 2, 1 / 2 :: real] ! 0 = 0" by simp
  with a b l w i show ?thesis by auto
qed

text \<open>
  The claim as stated fails in two ways. Where every position is masked, all logits are
  \<open>-1e9\<close> and the softmax spreads the weight evenly: each of two masked positions has
  weight \<open>1/2\<close>. And without a clip value an unmasked logit can lie below \<open>-1e9\<close>: next to
  the unmasked logit \<open>-2e9\<close> the masked position has weight 1.
\<close>

theorem myMHA_masked_weight_counterexample:
  "myMHA_weights [1] [[1], [2]] (Some [True, True]) (Some 10) = Inr [1 / 2, 1 / 2] \<and>
   myMHA_weights [- 2000000000] [[1], [1]] (Some [True, False]) None = Inr [1, 0]"
  by (simp add: myMHA_weights_def myMHA_logits_def masked_fill_def clip_logits_def
      scaled_scores_def softmax_def exp32_def dot_def Let_def)

section \<open>Properties of error sequencing, top-k and arg-max\<close>

lemma seq_e_Inr_iff: "seq_e rs = Inr vs \<longleftrightarrow> rs = map Inr vs"
proof (induction rs arbitrary: vs rule: seq_e.induct)
  case 1
  then show ?case by auto
next
  case (2 e rs)
  then show ?case by auto
next
  case (3 v rs)
  show ?case
  proof (cases "seq_e rs")
    case (Inl e)
    with 3[of "tl vs"] show ?thesis by (cases vs) auto
  next
    case (Inr ws)
    with 3[of ws] 3[of "tl vs"] show ?thesis by (cases vs) auto
  qed
qed

lemma seq_e_length: "seq_e rs = Inr vs \<Longrightarrow> length vs = length rs"
  by (simp add: seq_e_Inr_iff)

lemma seq_e_nth: "seq_e rs = Inr vs \<Longrightarrow> i < length rs \<Longrightarrow> rs ! i = Inr (vs ! i)"
  by (simp add: seq_e_Inr_iff)

lemma seq_e_map_nth:
  "seq_e (map f xs) = Inr vs \<Longrightarrow> i < length xs \<Longrightarrow> f (xs ! i) = Inr (vs ! i)"
  using seq_e_nth[of "map f xs" vs i] by simp

lemma seq_e_map2_nth:
  "seq_e (map2 f xs ys) = Inr vs \<Longrightarrow> i < length xs \<Longrightarrow> i < length ys \<Longrightarrow>
   f (xs ! i) (ys ! i) = Inr (vs ! i)"
  using seq_e_nth[of "map2 f xs ys" vs i] by simp

lemma argsort_desc_props:
  "distinct (argsort_desc xs)" "set (argsort_desc xs) = {..<length xs}"
  "length (argsort_desc xs) = length xs"
  by (auto simp: argsort_desc_def)

lemma argsort_desc_sorted:
  "sorted (rev (map (\<lambda>i. xs ! i) (argsort_desc xs)))"
  by (simp add: argsort_desc_def rev_map[symmetric])

lemma sorted_rev_take_drop:
  assumes "sorted (rev (map f is))" "i \<in> set (take k is)" "j \<in> set (drop k is)"
  shows "f j \<le> f i"
proof -
  have "is = take k is @ drop k is" by simp
  then have "map f is = map f (take k is) @ map f (drop k is)"
    by (metis map_append)
  then have "rev (map f is) = rev (map f (drop k is)) @ rev (map f (take k is))"
    by (metis rev_append)
  with assms(1) have "\<forall>a\<in>set (rev (map f (drop k is))). \<forall>b\<in>set (rev (map f (take k is))). a \<le> b"
    by (simp add: sorted_append)
  with assms(2,3) show ?thesis by auto
qed

lemma topk_props:
  assumes "topk xs k = Inr (vals, idx)"
  shows "length idx = k" "k \<le> length xs" "distinct idx" "set idx \<subseteq> {..<length xs}"
    "vals = map (\<lambda>i. xs ! i) idx"
    "\<And>i j. i \<in> set idx \<Longrightarrow> j < length xs \<Longrightarrow> j \<notin> set idx \<Longrightarrow> xs ! j \<le> xs ! i"
proof -
  from assms have k: "k \<le> length xs" and idx: "idx = take k (argsort_desc xs)"
    and vals: "vals = map (\<lambda>i. xs ! i) idx"
    by (auto simp: topk_def Let_def split: if_splits)
  show "k \<le> length xs" by fact
  show "vals = map (\<lambda>i. xs ! i) idx" by fact
  show "length idx = k" using k by (simp add: idx argsort_desc_props)
  show "distinct idx" by (simp add: idx argsort_desc_props distinct_take)
  show "set idx \<subseteq> {..<length xs}"
    using set_take_subset[of k "argsort_desc xs"] by (simp add: idx argsort_desc_props)
  fix i j assume i: "i \<in> set idx" and j: "j < length xs" "j \<notin> set idx"
  from j have "j \<in> set (argsort_desc xs)" by (simp add: argsort_desc_props)
  then have "j \<in> set (take k (argsort_desc xs)) \<union> set (drop k (argsort_desc xs))"
    by (metis append_take_drop_id set_append)
  with j(2) have "j \<in> set (drop k (argsort_desc xs))" by (simp add: idx)
  with sorted_rev_take_drop[OF argsort_desc_sorted, of i k xs j] i
  show "xs ! j \<le> xs ! i" by (simp add: idx)
qed

lemma argmax_props:
  assumes "argmax xs = Inr i"
  shows "i < length xs" "\<And>j. j < length xs \<Longrightarrow> xs ! j \<le> xs ! i"
proof -
  from assms obtain rest where a: "argsort_desc xs = i # rest"
    by (auto simp: argmax_def split: list.splits)
  then have "i \<in> set (argsort_desc xs)" by simp
  then show "i < length xs" by (simp add: argsort_desc_props)
  have t: "topk xs 1 = Inr ([xs ! i], [i])"
    using a argsort_desc_props(3)[of xs] by (auto simp: topk_def)
  fix j assume j: "j < length xs"
  show "xs ! j \<le> xs ! i"
  proof (cases "j = i")
    case True then show ?thesis by simp
  next
    case False
    with topk_props(6)[OF t, of i j] j show ?thesis by simp
  qed
qed

section \<open>Shapes of the gathered masks, tours and probabilities\<close>

lemma seq_e_map2_props:
  assumes "seq_e (map2 f xs ys) = Inr vs"
  shows "length vs = min (length xs) (length ys)"
    and "\<And>i. i < length xs \<Longrightarrow> i < length ys \<Longrightarrow> f (xs ! i) (ys ! i) = Inr (vs ! i)"
  using seq_e_length[OF assms] seq_e_map2_nth[OF assms] by auto

lemma gather_beams_props:
  assumes "gather_beams tmp idx = Inr G"
  shows "length G = min (length tmp) (length idx)"
    and "\<And>b. b < length tmp \<Longrightarrow> b < length idx \<Longrightarrow> length (G ! b) = length (idx ! b)"
    and "\<And>b i. b < length tmp \<Longrightarrow> b < length idx \<Longrightarrow> i < length (idx ! b) \<Longrightarrow>
           idx ! b ! i < length (tmp ! b) \<and> G ! b ! i = tmp ! b ! (idx ! b ! i)"
proof -
  note a = assms[unfolded gather_beams_def]
  show "length G = min (length tmp) (length idx)" by (rule seq_e_map2_props(1)[OF a])
  fix b assume b: "b < length tmp" "b < length idx"
  from seq_e_map2_props(2)[OF a b]
  have r: "seq_e (map (\<lambda>i. index_t (tmp ! b) (int i)) (idx ! b)) = Inr (G ! b)" .
  from seq_e_length[OF r] show "length (G ! b) = length (idx ! b)" by simp
  fix i assume i: "i < length (idx ! b)"
  from seq_e_map_nth[OF r i] have "index_t (tmp ! b) (int (idx ! b ! i)) = Inr (G ! b ! i)" .
  then show "idx ! b ! i < length (tmp ! b) \<and> G ! b ! i = tmp ! b ! (idx ! b ! i)"
    by (auto simp: index_t_def Let_def split: if_splits)
qed

lemma mark_visited_props:
  assumes "mark_visited msk idx = Inr M"
  shows "length M = min (length msk) (length idx)"
    and "\<And>b. b < length msk \<Longrightarrow> b < length idx \<Longrightarrow>
           length (M ! b) = min (length (msk ! b)) (length (idx ! b))"
    and "\<And>b i. b < length msk \<Longrightarrow> b < length idx \<Longrightarrow> i < length (msk ! b) \<Longrightarrow>
           i < length (idx ! b) \<Longrightarrow>
           idx ! b ! i < length (msk ! b ! i) \<and> M ! b ! i = (msk ! b ! i)[idx ! b ! i := True]"
proof -
  note a = assms[unfolded mark_visited_def]
  show "length M = min (length msk) (length idx)" by (rule seq_e_map2_props(1)[OF a])
  fix b assume b: "b < length msk" "b < length idx"
  from seq_e_map2_props(2)[OF a b]
  have r: "seq_e (map2 set_true (msk ! b) (idx ! b)) = Inr (M ! b)" .
  from seq_e_map2_props(1)[OF r]
  show "length (M ! b) = min (length (msk ! b)) (length (idx ! b))" .
  fix i assume i: "i < length (msk ! b)" "i < length (idx ! b)"
  from seq_e_map2_props(2)[OF r i]
  show "idx ! b ! i < length (msk ! b ! i) \<and> M ! b ! i = (msk ! b ! i)[idx ! b ! i := True]"
    by (auto simp: set_true_def split: if_splits)
qed

lemma write_step_props:
  assumes "write_step trs t idx = Inr T"
  shows "length T = min (length trs) (length idx)"
    and "\<And>b. b < length trs \<Longrightarrow> b < length idx \<Longrightarrow>
           length (T ! b) = min (length (trs ! b)) (length (idx ! b))"
    and "\<And>b i. b < length trs \<Longrightarrow> b < length idx \<Longrightarrow> i < length (trs ! b) \<Longrightarrow>
           i < length (idx ! b) \<Longrightarrow>
           t < length (trs ! b ! i) \<and> T ! b ! i = (trs ! b ! i)[t := idx ! b ! i]"
proof -
  note a = assms[unfolded write_step_def]
  show "length T = min (length trs) (length idx)" by (rule seq_e_map2_props(1)[OF a])
  fix b assume b: "b < length trs" "b < length idx"
  from seq_e_map2_props(2)[OF a b]
  have r: "seq_e (map2 (write_entry t) (trs ! b) (idx ! b)) = Inr (T ! b)" .
  from seq_e_map2_props(1)[OF r]
  show "length (T ! b) = min (length (trs ! b)) (length (idx ! b))" .
  fix i assume i: "i < length (trs ! b)" "i < length (idx ! b)"
  from seq_e_map2_props(2)[OF r i]
  show "t < length (trs ! b ! i) \<and> T ! b ! i = (trs ! b ! i)[t := idx ! b ! i]"
    by (auto simp: write_entry_def split: if_splits)
qed

lemma layer_forward_length:
  "layer_forward lay h K V m = Inr (lay', out) \<Longrightarrow> length out = length h"
  by (auto simp: layer_forward_def Let_def split: sum.splits if_splits)

lemma layers_forward_length:
  "layers_forward ls l h K V m = Inr (ls', h') \<Longrightarrow> length h' = length h"
proof (induction ls arbitrary: l h ls' h')
  case Nil
  then show ?case by simp
next
  case (Cons lay ls)
  from Cons.prems obtain lay1 h1 ls1 where
    a: "layer_forward lay h (map (\<lambda>r. r l) K) (map (\<lambda>r. r l) V) m = Inr (lay1, h1)"
    and b: "layers_forward ls (Suc l) h1 K V m = Inr (ls1, h')"
    by (auto split: sum.splits prod.splits)
  from Cons.IH[OF b] layer_forward_length[OF a] show ?case by simp
qed

subsection \<open>The final layer\<close>

lemma final_attn_layers [simp]: "final_attn (dec\<lparr>decoder_layers := ls\<rparr>) = final_attn dec"
  by (intro ext) (simp add: final_attn_def)

lemma final_attn_reset [simp]: "final_attn (decoder_reset dec) = final_attn dec"
  by (simp add: decoder_reset_def)

lemma final_attnE:
  assumes "final_attn dec h k v m = Inr p"
  obtains ls where
    "masked_fill (Some m) (clip_logits (Some 10) (scaled_scores (Wq_final dec h) k)) = Inr ls"
    "p = softmax ls"
  using assms unfolding final_attn_def myMHA_row_def myMHA_weights_def myMHA_logits_def
  by (auto split: sum.splits)

lemma final_attn_total:
  assumes "length m = length k"
  shows "\<exists>p. final_attn dec h k v m = Inr p"
  using assms
  by (simp add: final_attn_def myMHA_row_def myMHA_weights_def myMHA_logits_def
      masked_fill_def clip_logits_length scaled_scores_def)

lemma clip_logits_abs:
  assumes "i < length ws"
  shows "\<bar>clip_logits (Some c) ws ! i\<bar> \<le> \<bar>c\<bar>"
proof -
  have "\<bar>tanh (ws ! i)\<bar> \<le> 1"
    using tanh_real_bounds[of "ws ! i"] by (simp add: abs_le_iff less_imp_le)
  then have "\<bar>c * tanh (ws ! i)\<bar> \<le> \<bar>c\<bar> * 1"
    unfolding abs_mult by (intro mult_left_mono) simp_all
  with assms show ?thesis by (simp add: clip_logits_def)
qed

text \<open>
  The final layer respects the mask: its logits lie between \<open>-10\<close> and 10 on the unmasked
  positions, so next to one of them the exponential of a masked logit underflows.
\<close>

lemma final_attn_mask_respecting: "mask_respecting (final_attn dec)"
  unfolding mask_respecting_def
proof (intro allI impI)
  fix h k v m p
  assume r: "final_attn dec h k v m = Inr p" and l1: "1 < length m"
  let ?cl = "clip_logits (Some 10) (scaled_scores (Wq_final dec h) k)"
  from r obtain ls where mf: "masked_fill (Some m) ?cl = Inr ls" and p: "p = softmax ls"
    by (rule final_attnE)
  from mf l1 have lc: "length m = length ?cl"
    by (auto simp: masked_fill_def split: if_splits)
  note f = masked_fill_nth[OF mf lc]
  from f(1) lc have ll: "length ls = length m" by simp
  have cb: "- 10 \<le> ?cl ! i \<and> ?cl ! i \<le> 10" if "i < length m" for i
  proof -
    from that lc have "i < length (scaled_scores (Wq_final dec h) k)"
      by (simp add: clip_logits_length)
    from clip_logits_abs[OF this, of 10] show ?thesis by (simp add: abs_le_iff)
  qed
  have up: "Max (set ls) \<le> 10"
  proof -
    from l1 ll have ne: "set ls \<noteq> {}" by auto
    have "x \<le> 10" if "x \<in> set ls" for x
    proof -
      from that obtain i where i: "i < length ls" "x = ls ! i" by (auto simp: in_set_conv_nth)
      with f(2)[of i] cb[of i] ll lc show ?thesis by (cases "m ! i") simp_all
    qed
    with ne show ?thesis by simp
  qed
  have row: "(m ! i \<longrightarrow> p ! i = 0) \<and> (\<not> m ! i \<longrightarrow> 0 < p ! i)"
    if j: "j < length m" "\<not> m ! j" and i: "i < length m" for i j
  proof -
    from f(2)[of j] j lc cb[OF j(1)] have "- 10 \<le> ls ! j" by simp
    moreover from j(1) ll have "ls ! j \<le> Max (set ls)" by (intro Max_ge) simp_all
    ultimately have lo: "- 10 \<le> Max (set ls)" by simp
    from i ll have il: "i < length ls" by simp
    show ?thesis
    proof (cases "m ! i")
      case True
      with f(2)[of i] i lc have "ls ! i = - 1000000000" by simp
      with lo have "ls ! i < Max (set ls) - 104" by simp
      from softmax_zero[OF il this] True show ?thesis by (simp add: p)
    next
      case False
      with f(2)[of i] i lc cb[OF i] have "- 10 \<le> ls ! i" by simp
      with up have "Max (set ls) - 104 \<le> ls ! i" by simp
      from softmax_pos[OF il this] False show ?thesis by (simp add: p)
    qed
  qed
  from ll row show "length p = length m \<and>
      ((\<exists>j<length m. \<not> m ! j) \<longrightarrow>
         (\<forall>i<length m. (m ! i \<longrightarrow> p ! i = 0) \<and> (\<not> m ! i \<longrightarrow> 0 < p ! i)))"
    by (auto simp: p softmax_length)
qed

lemma final_attn_length:
  assumes "final_attn dec h k v m = Inr p" "1 < length m"
  shows "length p = length m"
  using final_attn_mask_respecting[of dec] assms unfolding mask_respecting_def by blast

subsection \<open>The decoder stack\<close>

lemma decoder_forward_props:
  assumes "decoder_forward dec h K V m = Inr (dec', prob)"
  shows "length prob = length m" and "final_attn dec' = final_attn dec"
    and "\<And>b. b < length m \<Longrightarrow> \<exists>hv kv vv. final_attn dec hv kv vv (m ! b) = Inr (prob ! b)"
proof -
  from assms obtain ls' h' where
    l: "layers_forward (decoder_layers dec) 0 h K V m = Inr (ls', h')"
    and len: "length m = length h'"
    and d: "dec' = dec\<lparr>decoder_layers := ls'\<rparr>"
    and p: "seq_e (map (\<lambda>b. final_attn dec (h' ! b) ((K ! b) (length (decoder_layers dec)))
              ((V ! b) (length (decoder_layers dec))) (m ! b)) [0..<length h']) = Inr prob"
    by (auto simp: decoder_forward_def Let_def split: sum.splits prod.splits if_splits)
  from seq_e_length[OF p] show "length prob = length m" by (simp add: len)
  show "final_attn dec' = final_attn dec" by (simp add: d)
  fix b assume b: "b < length m"
  with seq_e_map_nth[OF p, of b] len
  show "\<exists>hv kv vv. final_attn dec hv kv vv (m ! b) = Inr (prob ! b)" by auto
qed

section \<open>The parts of a successful decoding step\<close>

lemma beam_expandE:
  assumes "beam_expand net N B Bp h_encoder Kt Vt t st = Inr st'"
  obtains dec prob_flat prob_next_node tops msk_src msk trs_src trs hq dec' where
    "decoder_forward (bs_decoder st) (concat (bs_h_t st)) (bs_K_att st) (bs_V_att st)
       (concat (bs_mask st)) = Inr (dec, prob_flat)"
    "view_beams (length h_encoder) Bp (N + 1) prob_flat = Inr prob_next_node"
    "seq_e (map (\<lambda>r. topk r B)
       (map concat (map2 (\<lambda>ps ss. map2 (\<lambda>p s. map (\<lambda>q. score_add (log_t q) s) p) ps ss)
          prob_next_node (bs_sum_scores st)))) = Inr tops"
    "gather_beams (bs_mask st) (map (map (\<lambda>i. i div (N + 1))) (map snd tops)) = Inr msk_src"
    "mark_visited msk_src (map2 (map2 (\<lambda>i j. i - j * (N + 1))) (map snd tops)
        (map (map (\<lambda>i. i div (N + 1))) (map snd tops))) = Inr msk"
    "gather_beams (bs_tours st) (map (map (\<lambda>i. i div (N + 1))) (map snd tops)) = Inr trs_src"
    "write_step trs_src t (map2 (map2 (\<lambda>i j. i - j * (N + 1))) (map snd tops)
        (map (map (\<lambda>i. i div (N + 1))) (map snd tops))) = Inr trs"
    "decoder_reorder dec t (map (map (\<lambda>i. i div (N + 1))) (map snd tops)) = Inr dec'"
    "bs_mask st' = msk" "bs_tours st' = trs" "bs_sum_scores st' = map fst tops"
    "bs_decoder st' = dec'"
  using assms unfolding beam_expand_def Let_def
  by (auto split: sum.splits prod.splits)

lemma beam_step0E:
  assumes "beam_step0 net N B h_encoder Kt Vt dec0 = Inr st"
  obtains h_start dec prob_next_node tops msk trs dec' where
    "decoder_forward dec0 h_start Kt Vt (start_mask (length h_encoder) N) = Inr (dec, prob_next_node)"
    "seq_e (map (\<lambda>r. topk (map log_t r) (min B N)) prob_next_node) = Inr tops"
    "mark_visited (map (replicate (min B N)) (start_mask (length h_encoder) N)) (map snd tops) = Inr msk"
    "write_step (replicate (length h_encoder) (replicate (min B N) (replicate N 0))) 0 (map snd tops) = Inr trs"
    "decoder_repeat dec (min B N) = Inr dec'"
    "bs_mask st = msk" "bs_tours st = trs" "bs_sum_scores st = map fst tops"
    "bs_decoder st = dec'"
  using assms unfolding beam_step0_def Let_def
  by (auto split: sum.splits prod.splits)

lemma greedy_stepE:
  assumes "greedy_step net det h_encoder K V t st = Inr st'"
  obtains dec prob_next_node idx ProbOfChoices msk where
    "decoder_forward (gs_decoder st) (gs_h_t st) K V (gs_mask st) = Inr (dec, prob_next_node)"
    "choose_next net det prob_next_node = Inr idx"
    "gather_rows prob_next_node idx = Inr ProbOfChoices"
    "length idx = length (gs_mask st)"
    "seq_e (map2 set_true (gs_mask st) idx) = Inr msk"
    "gs_mask st' = msk" "gs_tours st' = gs_tours st @ [idx]" "gs_decoder st' = dec"
  using assms unfolding greedy_step_def
  by (auto split: sum.splits prod.splits if_splits)

section \<open>The final layer of the concrete network\<close>

lemma tanh_artanh_real:
  fixes x :: real
  assumes "\<bar>x\<bar> < 1"
  shows "tanh (artanh x) = x"
proof -
  from assms have p: "0 < 1 + x" "0 < 1 - x" by (simp_all add: abs_less_iff)
  then have r: "0 < (1 + x) / (1 - x)" by simp
  have "exp (- (2 * artanh x)) = inverse (exp (ln ((1 + x) / (1 - x))))"
    by (simp add: artanh_def exp_minus)
  also have "\<dots> = (1 - x) / (1 + x)" using r by (simp add: exp_ln)
  finally have e: "exp (- (2 * artanh x)) = (1 - x) / (1 + x)" .
  have "tanh (artanh x) = (1 - exp (- (2 * artanh x))) / (1 + exp (- (2 * artanh x)))"
    by (simp add: tanh_real_altdef)
  also have "\<dots> = x" unfolding e using p by (simp add: field_simps)
  finally show ?thesis .
qed

lemma dot_unit_vec:
  assumes "j < length q"
  shows "dot q (unit_vec (length q) j) = q ! j"
proof -
  have "dot q (unit_vec (length q) j)
      = (\<Sum>i = 0..<length q. q ! i * (if i = j then 1 else 0))"
    unfolding dot_def unit_vec_def sum_list_sum_nth
    by (intro sum.cong) simp_all
  also have "\<dots> = (\<Sum>i\<in>{0..<length q}. if i = j then q ! i else 0)"
    by (intro sum.cong) simp_all
  also have "\<dots> = q ! j" using assms by (simp add: sum.delta)
  finally show ?thesis .
qed

lemma sum_list_divide:
  fixes xs :: "real list"
  shows "sum_list (map (\<lambda>x. x / c) xs) = sum_list xs / c"
  by (induction xs) (simp_all add: add_divide_distrib)

lemma example_final_attn:
  assumes wq: "Wq_final dec = example_Wq w"
    and k: "k = map (unit_vec 8) [0..<length m]" and l8: "length m \<le> 8"
    and um: "False \<in> set m"
    and wb: "\<And>j. 1 \<le> w h j \<and> w h j \<le> 10"
  shows "final_attn dec h k v m = Inr (example_probs w h m)"
proof -
  let ?n = "length m"
  let ?q = "example_Wq w h"
  have lq: "length ?q = 8" by (simp add: example_Wq_def)
  have lw: "0 \<le> ln (w h j) \<and> ln (w h j) < 10" for j
  proof -
    from wb[of j] have "0 < w h j" by simp
    from ln_le_minus_one[OF this] wb[of j] have "ln (w h j) \<le> 9" by simp
    moreover from wb[of j] have "0 \<le> ln (w h j)" by simp
    ultimately show ?thesis by simp
  qed
  have sc: "scaled_scores ?q k = map (\<lambda>j. artanh (ln (w h j) / 10)) [0..<?n]"
  proof (intro nth_equalityI)
    show "length (scaled_scores ?q k) = length (map (\<lambda>j. artanh (ln (w h j) / 10)) [0..<?n])"
      by (simp add: scaled_scores_def k)
    fix j assume "j < length (scaled_scores ?q k)"
    then have j: "j < ?n" by (simp add: scaled_scores_def k)
    with l8 have j8: "j < length ?q" by (simp add: lq)
    from dot_unit_vec[OF j8] have "dot ?q (unit_vec 8 j) = ?q ! j" by (simp add: lq)
    also have "\<dots> = sqrt 8 * artanh (ln (w h j) / 10)"
      using j8 lq by (simp add: example_Wq_def)
    finally have "dot ?q (unit_vec 8 j) / sqrt (real (length ?q)) = artanh (ln (w h j) / 10)"
      by (simp add: lq)
    with j show "scaled_scores ?q k ! j = map (\<lambda>j. artanh (ln (w h j) / 10)) [0..<?n] ! j"
      by (simp add: scaled_scores_def k)
  qed
  have cl: "clip_logits (Some 10) (scaled_scores ?q k) = map (\<lambda>j. ln (w h j)) [0..<?n]"
  proof -
    have "10 * tanh (artanh (ln (w h j) / 10)) = ln (w h j)" for j
    proof -
      from lw[of j] have "\<bar>ln (w h j) / 10\<bar> < 1" by simp
      from tanh_artanh_real[OF this] show ?thesis by simp
    qed
    then show ?thesis by (simp add: sc clip_logits_def)
  qed
  let ?ls = "map (\<lambda>j. if m ! j then - 1000000000 else ln (w h j)) [0..<?n]"
  have mf: "masked_fill (Some m) (clip_logits (Some 10) (scaled_scores ?q k)) = Inr ?ls"
    unfolding cl masked_fill_def
    by (auto intro!: nth_equalityI)
  have fa: "final_attn dec h k v m = Inr (softmax ?ls)"
    by (simp add: final_attn_def myMHA_row_def myMHA_weights_def myMHA_logits_def wq mf)
  define M where "M = Max (set ?ls)"
  from um obtain j0 where j0: "j0 < ?n" "\<not> m ! j0" by (auto simp: in_set_conv_nth)
  have ne: "set ?ls \<noteq> {}" using j0 by auto
  have M0: "0 \<le> M"
  proof -
    from j0 have "?ls ! j0 = ln (w h j0)" by simp
    moreover from j0 have "?ls ! j0 \<le> Max (set ?ls)" by (intro Max_ge) simp_all
    ultimately show ?thesis using lw[of j0] by (simp add: M_def)
  qed
  have M10: "M < 10"
  proof -
    have "x < 10" if "x \<in> set ?ls" for x
      using that lw by auto
    with ne show ?thesis by (simp add: M_def)
  qed
  let ?ws = "map (\<lambda>j. if m ! j then 0 else w h j) [0..<?n]"
  have e0: "exp32 ((if m ! j then - 1000000000 else ln (w h j)) - M)
      = (if m ! j then 0 else w h j) / exp M" for j
  proof (cases "m ! j")
    case True
    with M0 show ?thesis by (simp add: exp32_def)
  next
    case False
    from wb[of j] have "0 < w h j" by simp
    moreover from lw[of j] M10 have "\<not> ln (w h j) - M < - 104" by simp
    ultimately show ?thesis using False by (simp add: exp32_def exp_diff exp_ln)
  qed
  have e1: "exp32 (?ls ! j - M) = ?ws ! j / exp M" if j: "j < ?n" for j
    using e0[of j] j by (cases "m ! j") simp_all
  have es: "map (\<lambda>x. exp32 (x - M)) ?ls = map (\<lambda>u. u / exp M) ?ws"
  proof (intro nth_equalityI)
    show "length (map (\<lambda>x. exp32 (x - M)) ?ls) = length (map (\<lambda>u. u / exp M) ?ws)" by simp
    fix j assume "j < length (map (\<lambda>x. exp32 (x - M)) ?ls)"
    then have j: "j < ?n" by simp
    from e0[of j] j
    show "map (\<lambda>x. exp32 (x - M)) ?ls ! j = map (\<lambda>u. u / exp M) ?ws ! j"
      by (cases "m ! j") simp_all
  qed
  have sm: "sum_list (map (\<lambda>x. exp32 (x - M)) ?ls) = sum_list ?ws / exp M"
    unfolding es by (rule sum_list_divide)
  have "softmax ?ls = example_probs w h m"
  proof (intro nth_equalityI)
    show "length (softmax ?ls) = length (example_probs w h m)"
      by (simp add: softmax_length example_probs_def Let_def)
    fix i assume "i < length (softmax ?ls)"
    then have i: "i < ?n" by (simp add: softmax_length)
    then have "softmax ?ls ! i
        = exp32 (?ls ! i - M) / sum_list (map (\<lambda>x. exp32 (x - M)) ?ls)"
      unfolding M_def by (intro softmax_nth) simp
    also have "\<dots> = (?ws ! i / exp M) / (sum_list ?ws / exp M)"
      unfolding sm e1[OF i] ..
    also have "\<dots> = ?ws ! i / sum_list ?ws" by simp
    finally show "softmax ?ls ! i = example_probs w h m ! i"
      using i by (simp add: example_probs_def Let_def)
  qed
  with fa show ?thesis by simp
qed

lemma example_uniform_final:
  assumes "Wq_final dec = example_Wq (\<lambda>h j. 1)" "k = map (unit_vec 8) [0..<length m]"
    "length m \<le> 8" "False \<in> set m"
  shows "final_attn dec h k v m = Inr (example_probs (\<lambda>h j. 1) h m)"
  using assms by (intro example_final_attn) simp_all

lemma example_weights_final:
  assumes "Wq_final dec = example_Wq example_weights" "k = map (unit_vec 8) [0..<length m]"
    "length m \<le> 8" "False \<in> set m"
  shows "final_attn dec h k v m = Inr (example_probs example_weights h m)"
  using assms by (intro example_final_attn) (simp_all add: example_weights_def)

lemma example_ranked_final:
  assumes "Wq_final dec = example_Wq example_ranked" "k = map (unit_vec 8) [0..<length m]"
    "length m \<le> 8" "False \<in> set m"
  shows "final_attn dec h k v m = Inr (example_probs example_ranked h m)"
  using assms by (intro example_final_attn) (simp_all add: example_ranked_def)

lemmas example_final = example_uniform_final example_weights_final example_ranked_final

section \<open>The visited-mask along a decode\<close>

lemma mask_le_refl: "mask_le m m"
  by (simp add: mask_le_def)

lemma mask_le_trans: "mask_le a b \<Longrightarrow> mask_le b c \<Longrightarrow> mask_le a c"
  by (auto simp: mask_le_def)

lemma mask_le_update: "mask_le m (m[k := True])"
  by (cases "k < length m") (auto simp: mask_le_def nth_list_update)

lemma greedy_step_mask:
  assumes "greedy_step net det h_encoder K V t st = Inr st'"
  shows "length (gs_mask st') = length (gs_mask st)"
    and "\<And>b. b < length (gs_mask st) \<Longrightarrow> mask_le (gs_mask st ! b) (gs_mask st' ! b)"
proof -
  from assms obtain idx msk where
    l: "length idx = length (gs_mask st)"
    and m: "seq_e (map2 set_true (gs_mask st) idx) = Inr msk" and e: "gs_mask st' = msk"
    by (rule greedy_stepE)
  from seq_e_map2_props(1)[OF m] l show "length (gs_mask st') = length (gs_mask st)"
    by (simp add: e)
  fix b assume b: "b < length (gs_mask st)"
  with seq_e_map2_props(2)[OF m, of b] l
  have "set_true (gs_mask st ! b) (idx ! b) = Inr (msk ! b)" by simp
  then have "msk ! b = (gs_mask st ! b)[idx ! b := True]"
    by (auto simp: set_true_def split: if_splits)
  then show "mask_le (gs_mask st ! b) (gs_mask st' ! b)"
    by (simp add: e mask_le_update)
qed

lemma greedy_loop_mask:
  assumes "greedy_loop net det h_encoder K V ts st = Inr st'"
  shows "length (gs_mask st') = length (gs_mask st) \<and>
         (\<forall>b<length (gs_mask st). mask_le (gs_mask st ! b) (gs_mask st' ! b))"
  using assms
proof (induction ts arbitrary: st)
  case Nil
  then show ?case by (simp add: mask_le_refl)
next
  case (Cons t ts)
  from Cons.prems obtain st1 where
    s: "greedy_step net det h_encoder K V t st = Inr st1"
    and r: "greedy_loop net det h_encoder K V ts st1 = Inr st'"
    by (auto split: sum.splits)
  from Cons.IH[OF r] greedy_step_mask[OF s] show ?case
    by (auto intro: mask_le_trans)
qed

lemma beam_expand_mask:
  assumes "beam_expand net N B Bp h_encoder Kt Vt t st = Inr st'"
  shows "\<exists>idx_top_beams idx_in_beams.
           beam_select N B Bp h_encoder st = Inr (idx_top_beams, idx_in_beams) \<and>
           (\<forall>b<length (bs_mask st'). \<forall>i<length (bs_mask st' ! b).
              idx_top_beams ! b ! i < length (bs_mask st ! b) \<and>
              bs_mask st' ! b ! i
                = (bs_mask st ! b ! (idx_top_beams ! b ! i))[idx_in_beams ! b ! i := True] \<and>
              mask_le (bs_mask st ! b ! (idx_top_beams ! b ! i)) (bs_mask st' ! b ! i))"
proof -
  from assms obtain dec prob_flat prob and tops :: "(score list \<times> nat list) list"
    and msk_src msk where
    df: "decoder_forward (bs_decoder st) (concat (bs_h_t st)) (bs_K_att st) (bs_V_att st)
       (concat (bs_mask st)) = Inr (dec, prob_flat)"
    and vb: "view_beams (length h_encoder) Bp (N + 1) prob_flat = Inr prob"
    and tk: "seq_e (map (\<lambda>r. topk r B)
       (map concat (map2 (\<lambda>ps ss. map2 (\<lambda>p s. map (\<lambda>q. score_add (log_t q) s) p) ps ss)
          prob (bs_sum_scores st)))) = Inr tops"
    and g: "gather_beams (bs_mask st) (map (map (\<lambda>i. i div (N + 1))) (map snd tops)) = Inr msk_src"
    and m: "mark_visited msk_src (map2 (map2 (\<lambda>i j. i - j * (N + 1))) (map snd tops)
        (map (map (\<lambda>i. i div (N + 1))) (map snd tops))) = Inr msk"
    and e: "bs_mask st' = msk"
    by (rule beam_expandE)
  let ?top = "map (map (\<lambda>i. i div (N + 1))) (map snd tops)"
  let ?inb = "map2 (map2 (\<lambda>i j. i - j * (N + 1))) (map snd tops) ?top"
  have sel: "beam_select N B Bp h_encoder st = Inr (?top, ?inb)"
    unfolding beam_select_def Let_def by (simp only: df vb tk sum.case prod.case)
  have row: "?top ! b ! i < length (bs_mask st ! b) \<and>
      bs_mask st' ! b ! i = (bs_mask st ! b ! (?top ! b ! i))[?inb ! b ! i := True] \<and>
      mask_le (bs_mask st ! b ! (?top ! b ! i)) (bs_mask st' ! b ! i)"
    if b: "b < length (bs_mask st')" and i: "i < length (bs_mask st' ! b)" for b i
  proof -
    from b e mark_visited_props(1)[OF m]
    have b1: "b < length msk_src" "b < length ?inb" by auto
    from b1(1) gather_beams_props(1)[OF g]
    have b2: "b < length (bs_mask st)" "b < length ?top" by auto
    from i e mark_visited_props(2)[OF m b1]
    have i1: "i < length (msk_src ! b)" "i < length (?inb ! b)" by auto
    from i1(1) gather_beams_props(2)[OF g b2] have i2: "i < length (?top ! b)" by simp
    from gather_beams_props(3)[OF g b2 i2]
    have s: "?top ! b ! i < length (bs_mask st ! b)"
      and src: "msk_src ! b ! i = bs_mask st ! b ! (?top ! b ! i)" by auto
    from mark_visited_props(3)[OF m b1 i1]
    have "msk ! b ! i = (msk_src ! b ! i)[?inb ! b ! i := True]" by simp
    with src e have u: "bs_mask st' ! b ! i
        = (bs_mask st ! b ! (?top ! b ! i))[?inb ! b ! i := True]" by simp
    then have "mask_le (bs_mask st ! b ! (?top ! b ! i)) (bs_mask st' ! b ! i)"
      by (simp add: mask_le_update)
    with s u show ?thesis by blast
  qed
  from sel row show ?thesis by blast
qed

lemma beam_step0_mask:
  assumes "beam_step0 net N B h_encoder Kt Vt dec0 = Inr st"
    and "b < length (bs_mask st)" and "i < length (bs_mask st ! b)"
  shows "mask_le (start_mask (length h_encoder) N ! b) (bs_mask st ! b ! i)"
proof -
  from assms(1) obtain tops :: "(score list \<times> nat list) list" and msk where
    m: "mark_visited (map (replicate (min B N)) (start_mask (length h_encoder) N))
          (map snd tops) = Inr msk"
    and e: "bs_mask st = msk"
    by (rule beam_step0E)
  let ?m0 = "map (replicate (min B N)) (start_mask (length h_encoder) N)"
  from assms(2) e mark_visited_props(1)[OF m]
  have b1: "b < length ?m0" "b < length (map snd tops)" by auto
  from assms(3) e mark_visited_props(2)[OF m b1]
  have i1: "i < length (?m0 ! b)" "i < length (map snd tops ! b)" by auto
  from mark_visited_props(3)[OF m b1 i1]
  have "msk ! b ! i = (?m0 ! b ! i)[map snd tops ! b ! i := True]" by simp
  moreover from b1(1) i1(1) have "?m0 ! b ! i = start_mask (length h_encoder) N ! b"
    by simp
  ultimately show ?thesis by (simp add: e mask_le_update)
qed

text \<open>
  Claim C8 (as amended). In greedy mode the visited-mask of every batch row only gains
  entries from one step to any later step of the decode. In beam-search mode every beam
  of step 0 has the entry of the start placeholder, and the mask of the beam kept at
  position \<open>i\<close> of batch row \<open>b\<close> at a step \<open>t > 0\<close> is the mask of its source beam
  \<open>idx_top_beams[b][i]\<close> of the previous step with the entry of the new node
  \<open>idx_in_beams[b][i]\<close> set, so the mask only gains entries along the ancestry of a beam.
  \<open>Bp\<close> is the number of beams the step starts from.
\<close>

theorem visited_mask_grows_along_decode:
  "(greedy_loop net det h_encoder K V ts gst = Inr gst' \<longrightarrow>
      length (gs_mask gst') = length (gs_mask gst) \<and>
      (\<forall>b<length (gs_mask gst). mask_le (gs_mask gst ! b) (gs_mask gst' ! b)))
   \<and> (beam_step net N B h_encoder K V dec0 0 sto = Inr st' \<longrightarrow>
      (\<forall>b<length (bs_mask st'). \<forall>i<length (bs_mask st' ! b).
         mask_le (start_mask (length h_encoder) N ! b) (bs_mask st' ! b ! i)))
   \<and> (0 < t \<and> beam_step net N B h_encoder K V dec0 t (Some st) = Inr st' \<longrightarrow>
      (\<exists>idx_top_beams idx_in_beams.
         beam_select N B (if t = 1 then min B N else B) h_encoder st
           = Inr (idx_top_beams, idx_in_beams) \<and>
         (\<forall>b<length (bs_mask st'). \<forall>i<length (bs_mask st' ! b).
            idx_top_beams ! b ! i < length (bs_mask st ! b) \<and>
            bs_mask st' ! b ! i
              = (bs_mask st ! b ! (idx_top_beams ! b ! i))[idx_in_beams ! b ! i := True] \<and>
            mask_le (bs_mask st ! b ! (idx_top_beams ! b ! i)) (bs_mask st' ! b ! i))))"
proof (intro conjI impI)
  assume "greedy_loop net det h_encoder K V ts gst = Inr gst'"
  from greedy_loop_mask[OF this]
  show "length (gs_mask gst') = length (gs_mask gst)"
    and "\<forall>b<length (gs_mask gst). mask_le (gs_mask gst ! b) (gs_mask gst' ! b)" by auto
next
  assume "beam_step net N B h_encoder K V dec0 0 sto = Inr st'"
  then have "beam_step0 net N B h_encoder K V dec0 = Inr st'" by (simp add: beam_step_def)
  from beam_step0_mask[OF this]
  show "\<forall>b<length (bs_mask st'). \<forall>i<length (bs_mask st' ! b).
         mask_le (start_mask (length h_encoder) N ! b) (bs_mask st' ! b ! i)" by blast
next
  assume a: "0 < t \<and> beam_step net N B h_encoder K V dec0 t (Some st) = Inr st'"
  then have "beam_expand net N B (if t = 1 then min B N else B) h_encoder K V t st = Inr st'"
    by (auto simp: beam_step_def split: if_splits)
  from beam_expand_mask[OF this]
  show "\<exists>idx_top_beams idx_in_beams.
         beam_select N B (if t = 1 then min B N else B) h_encoder st
           = Inr (idx_top_beams, idx_in_beams) \<and>
         (\<forall>b<length (bs_mask st'). \<forall>i<length (bs_mask st' ! b).
            idx_top_beams ! b ! i < length (bs_mask st ! b) \<and>
            bs_mask st' ! b ! i
              = (bs_mask st ! b ! (idx_top_beams ! b ! i))[idx_in_beams ! b ! i := True] \<and>
            mask_le (bs_mask st ! b ! (idx_top_beams ! b ! i)) (bs_mask st' ! b ! i))" .
qed

lemma example_greedy_masks:
  "map_sum id gs_mask (greedy_loop example_uniform True [[0, 1, 2]] (example_keys 2)
      (example_keys 2) [0..<2] example_greedy_state0) = Inr [[True, True, True]]"
  by (simp add: example_greedy_state0_def example_uniform_def eval_rules example_final)

lemma example_beam_step0:
  "beam_step (example_net example_weights None) 4 2 [[0, 1, 2, 3, 4]] (example_keys 4)
     (example_keys 4) (decoder_reset (decoder (example_net example_weights None))) 0 None
   = Inr example_beam_state4"
  by (simp add: example_beam_state4_def eval_rules example_final)

lemma example_beam_step1_masks:
  "map_sum id bs_mask (beam_step (example_net example_weights None) 4 2 [[0, 1, 2, 3, 4]]
     (example_keys 4) (example_keys 4)
     (decoder_reset (decoder (example_net example_weights None))) 1 (Some example_beam_state4))
   = Inr [[[True, False, True, False, True], [True, False, False, True, True]]]"
  by (simp add: example_beam_state4_def eval_rules example_final)

lemma example_beam_select:
  "beam_select 4 2 2 [[0, 1, 2, 3, 4]] example_beam_state4 = Inr ([[0, 0]], [[2, 3]])"
  by (simp add: example_beam_state4_def eval_rules example_final)

text \<open>
  A greedy decode of two nodes, and the steps 0 and 1 of a beam search over four nodes
  with width 2: both beams kept at step 1 come from the beam of position 0, which had
  visited node 0, and move to the nodes 2 and 3.
\<close>

theorem visited_mask_grows_along_decode_witness:
  "map_sum id gs_mask (greedy_loop example_uniform True [[0, 1, 2]] (example_keys 2)
      (example_keys 2) [0..<2] example_greedy_state0) = Inr [[True, True, True]] \<and>
   mask_le (gs_mask example_greedy_state0 ! 0) [True, True, True] \<and>
   beam_step (example_net example_weights None) 4 2 [[0, 1, 2, 3, 4]] (example_keys 4)
     (example_keys 4) (decoder_reset (decoder (example_net example_weights None))) 0 None
     = Inr example_beam_state4 \<and>
   mask_le (start_mask 1 4 ! 0) (bs_mask example_beam_state4 ! 0 ! 1) \<and>
   (0::nat) < 1 \<and>
   map_sum id bs_mask (beam_step (example_net example_weights None) 4 2 [[0, 1, 2, 3, 4]]
     (example_keys 4) (example_keys 4)
     (decoder_reset (decoder (example_net example_weights None))) 1 (Some example_beam_state4))
     = Inr [[[True, False, True, False, True], [True, False, False, True, True]]] \<and>
   beam_select 4 2 2 [[0, 1, 2, 3, 4]] example_beam_state4 = Inr ([[0, 0]], [[2, 3]]) \<and>
   [True, False, False, True, True] = (bs_mask example_beam_state4 ! 0 ! 0)[3 := True] \<and>
   mask_le (bs_mask example_beam_state4 ! 0 ! 0) [True, False, False, True, True]"
proof -
  let ?K = "example_keys 2"
  let ?W = "example_net example_weights None"
  let ?K4 = "example_keys 4"
  let ?d = "decoder_reset (decoder ?W)"
  let ?h = "[[0, 1, 2, 3, 4 :: nat]]"
  from example_greedy_masks obtain gst' where
    g: "greedy_loop example_uniform True [[0, 1, 2]] ?K ?K [0..<2] example_greedy_state0
          = Inr gst'"
    and gm: "gs_mask gst' = [[True, True, True]]"
    by (cases "greedy_loop example_uniform True [[0, 1, 2]] ?K ?K [0..<2]
          example_greedy_state0") auto
  from example_beam_step1_masks obtain st1 where
    b1: "beam_step ?W 4 2 ?h ?K4 ?K4 ?d 1 (Some example_beam_state4) = Inr st1"
    and bm: "bs_mask st1 = [[[True, False, True, False, True], [True, False, False, True, True]]]"
    by (cases "beam_step ?W 4 2 ?h ?K4 ?K4 ?d 1 (Some example_beam_state4)") auto
  note in_greedy = visited_mask_grows_along_decode
    [of example_uniform True "[[0, 1, 2]]" ?K ?K "[0..<2]" example_greedy_state0 gst'
        2 2 undefined None undefined 1 undefined]
  have l0: "length (gs_mask example_greedy_state0) = 1"
    by (simp add: example_greedy_state0_def start_mask_def)
  from in_greedy g gm l0 have w1: "mask_le (gs_mask example_greedy_state0 ! 0) [True, True, True]"
    by simp
  note at_step0 = visited_mask_grows_along_decode
    [of ?W True ?h ?K4 ?K4 "[]" example_greedy_state0 example_greedy_state0
        4 2 ?d None example_beam_state4 1 example_beam_state4]
  have l1: "length (bs_mask example_beam_state4) = 1"
      "length (bs_mask example_beam_state4 ! 0) = 2"
    by (simp_all add: example_beam_state4_def)
  from at_step0 example_beam_step0 l1
  have w2: "mask_le (start_mask 1 4 ! 0) (bs_mask example_beam_state4 ! 0 ! 1)"
    by simp
  note at_step1 = visited_mask_grows_along_decode
    [of ?W True ?h ?K4 ?K4 "[]" example_greedy_state0 example_greedy_state0
        4 2 ?d None st1 1 example_beam_state4]
  have t1: "(0::nat) < 1" by simp
  from at_step1 t1 b1 obtain tb ib where
    s: "beam_select 4 2 (if (1::nat) = 1 then min 2 4 else 2) ?h example_beam_state4
          = Inr (tb, ib)"
    and q: "\<forall>b<length (bs_mask st1). \<forall>i<length (bs_mask st1 ! b).
        tb ! b ! i < length (bs_mask example_beam_state4 ! b) \<and>
        bs_mask st1 ! b ! i = (bs_mask example_beam_state4 ! b ! (tb ! b ! i))[ib ! b ! i := True] \<and>
        mask_le (bs_mask example_beam_state4 ! b ! (tb ! b ! i)) (bs_mask st1 ! b ! i)"
    by blast
  from s example_beam_select have tb: "tb = [[0, 0]]" and ib: "ib = [[2, 3]]" by simp_all
  from bm have lb: "0 < length (bs_mask st1)" "1 < length (bs_mask st1 ! 0)" by simp_all
  note r = q [rule_format, OF lb, unfolded bm tb ib, simplified]
  from r
  have w3: "[True, False, False, True, True] = (bs_mask example_beam_state4 ! 0 ! 0)[3 := True]"
    and w4: "mask_le (bs_mask example_beam_state4 ! 0 ! 0) [True, False, False, True, True]"
    by blast+
  from example_greedy_masks w1 example_beam_step0 w2 t1 example_beam_step1_masks
    example_beam_select w3 w4
  show ?thesis by blast
qed

text \<open>
  The claim as stated fails per beam slot. With four nodes and beam width 2, slot 1 holds
  after step 0 the beam that visited node 1; at step 1 both kept beams are expansions of
  the beam of slot 0 (to the nodes 2 and 3), so the mask of slot 1 no longer has node 1.
  The four scores compared at each of the two steps are pairwise different.
\<close>

theorem beam_slot_mask_counterexample:
  "map_sum id (map_option bs_mask)
     (beam_state_after (example_net example_weights None) 4 2 [[0, 1, 2, 3, 4]]
        (example_keys 4) (example_keys 4) (decoder (example_net example_weights None)) 0)
     = Inr (Some [[[True, False, False, False, True], [False, True, False, False, True]]]) \<and>
   map_sum id (map_option bs_mask)
     (beam_state_after (example_net example_weights None) 4 2 [[0, 1, 2, 3, 4]]
        (example_keys 4) (example_keys 4) (decoder (example_net example_weights None)) 1)
     = Inr (Some [[[True, False, True, False, True], [True, False, False, True, True]]]) \<and>
   [False, True, False, False, True] ! 1 \<and> \<not> [True, False, False, True, True] ! 1"
  by (simp add: beam_state_after_def eval_rules example_final)

section \<open>The number of beams\<close>

lemma tops_rows:
  assumes "seq_e (map (\<lambda>r. topk (f r) k) rows) = Inr tops" "b < length rows"
  shows "length tops = length rows" "topk (f (rows ! b)) k = Inr (tops ! b)"
    "length (snd (tops ! b)) = k" "length (fst (tops ! b)) = k"
proof -
  show "length tops = length rows" using seq_e_length[OF assms(1)] by simp
  from seq_e_map_nth[OF assms] show t: "topk (f (rows ! b)) k = Inr (tops ! b)" .
  then have t': "topk (f (rows ! b)) k = Inr (fst (tops ! b), snd (tops ! b))" by simp
  from topk_props(1)[OF t'] show "length (snd (tops ! b)) = k" .
  with topk_props(5)[OF t'] show "length (fst (tops ! b)) = k" by simp
qed

lemma beam_step0_count:
  assumes "beam_step0 net N B h_encoder Kt Vt dec0 = Inr st"
  shows "beam_count st (min B N)"
proof -
  from assms obtain prob_next_node and tops :: "(score list \<times> nat list) list" and msk trs where
    t: "seq_e (map (\<lambda>r. topk (map log_t r) (min B N)) prob_next_node) = Inr tops"
    and m: "mark_visited (map (replicate (min B N)) (start_mask (length h_encoder) N))
              (map snd tops) = Inr msk"
    and w: "write_step (replicate (length h_encoder) (replicate (min B N) (replicate N 0))) 0
              (map snd tops) = Inr trs"
    and e: "bs_mask st = msk" "bs_tours st = trs" "bs_sum_scores st = map fst tops"
    by (rule beam_step0E)
  have lt: "length tops = length prob_next_node" using seq_e_length[OF t] by simp
  have k: "length (snd (tops ! b)) = min B N" "length (fst (tops ! b)) = min B N"
    if "b < length tops" for b
    using tops_rows(3,4)[OF t, of b] that lt by simp_all
  have "length (trs ! b) = min B N" if "b < length trs" for b
  proof -
    from that write_step_props(1)[OF w] have b: "b < length h_encoder" "b < length tops" by auto
    with write_step_props(2)[OF w, of b] k(1)[of b] show ?thesis by simp
  qed
  moreover have "length (msk ! b) = min B N" if "b < length msk" for b
  proof -
    from that mark_visited_props(1)[OF m]
    have b: "b < length (start_mask (length h_encoder) N)" "b < length tops" by auto
    with mark_visited_props(2)[OF m, of b] k(1)[of b] show ?thesis by simp
  qed
  ultimately show ?thesis using k(2)
    by (auto simp: beam_count_def e list_all_length)
qed

lemma beam_expand_count:
  assumes "beam_expand net N B Bp h_encoder Kt Vt t st = Inr st'"
  shows "beam_count st' B"
proof -
  from assms obtain rows and tops :: "(score list \<times> nat list) list"
    and msk_src msk trs_src trs where
    t: "seq_e (map (\<lambda>r. topk r B) (map concat rows)) = Inr tops"
    and g: "gather_beams (bs_mask st) (map (map (\<lambda>i. i div (N + 1))) (map snd tops)) = Inr msk_src"
    and m: "mark_visited msk_src (map2 (map2 (\<lambda>i j. i - j * (N + 1))) (map snd tops)
        (map (map (\<lambda>i. i div (N + 1))) (map snd tops))) = Inr msk"
    and g': "gather_beams (bs_tours st) (map (map (\<lambda>i. i div (N + 1))) (map snd tops)) = Inr trs_src"
    and w: "write_step trs_src t (map2 (map2 (\<lambda>i j. i - j * (N + 1))) (map snd tops)
        (map (map (\<lambda>i. i div (N + 1))) (map snd tops))) = Inr trs"
    and e: "bs_mask st' = msk" "bs_tours st' = trs" "bs_sum_scores st' = map fst tops"
    by (rule beam_expandE)
  let ?top = "map (map (\<lambda>i. i div (N + 1))) (map snd tops)"
  let ?inb = "map2 (map2 (\<lambda>i j. i - j * (N + 1))) (map snd tops) ?top"
  from t have t2: "seq_e (map (\<lambda>r. topk (concat r) B) rows) = Inr tops" by (simp add: o_def)
  have lt: "length tops = length rows" using seq_e_length[OF t2] by simp
  have k: "length (snd (tops ! b)) = B" "length (fst (tops ! b)) = B"
    if "b < length tops" for b
    using tops_rows(3,4)[OF t2, of b] that lt by simp_all
  have li: "length ?inb = length tops" "length ?top = length tops" by simp_all
  have ki: "length (?inb ! b) = B" "length (?top ! b) = B" if "b < length tops" for b
    using that k(1)[OF that] by simp_all
  have "length (msk ! b) = B" if "b < length msk" for b
  proof -
    from that mark_visited_props(1)[OF m] li have b: "b < length msk_src" "b < length tops"
      by auto
    with gather_beams_props(1)[OF g] li have b2: "b < length (bs_mask st)" by simp
    from gather_beams_props(2)[OF g b2] b li ki(2)[of b] have "length (msk_src ! b) = B" by simp
    with mark_visited_props(2)[OF m b(1)] b li ki(1)[of b] show ?thesis by simp
  qed
  moreover have "length (trs ! b) = B" if "b < length trs" for b
  proof -
    from that write_step_props(1)[OF w] li have b: "b < length trs_src" "b < length tops"
      by auto
    with gather_beams_props(1)[OF g'] li have b2: "b < length (bs_tours st)" by simp
    from gather_beams_props(2)[OF g' b2] b li ki(2)[of b] have "length (trs_src ! b) = B" by simp
    with write_step_props(2)[OF w b(1)] b li ki(1)[of b] show ?thesis by simp
  qed
  ultimately show ?thesis using k(2)
    by (auto simp: beam_count_def e list_all_length)
qed

lemma beam_loop_last:
  assumes "beam_loop net N B h K V dec0 ts sto = Inr (Some st)" "ts \<noteq> []"
  shows "\<exists>sto'. beam_step net N B h K V dec0 (last ts) sto' = Inr st"
  using assms
proof (induction ts arbitrary: sto)
  case Nil
  then show ?case by simp
next
  case (Cons t ts)
  from Cons.prems(1) obtain st1 where
    s: "beam_step net N B h K V dec0 t sto = Inr st1"
    and r: "beam_loop net N B h K V dec0 ts (Some st1) = Inr (Some st)"
    by (auto split: sum.splits)
  show ?case
  proof (cases "ts = []")
    case True
    with s r show ?thesis by auto
  next
    case False
    with Cons.IH[OF r] show ?thesis by simp
  qed
qed

lemma beam_step_count:
  assumes "beam_step net N B h K V dec0 t sto = Inr st"
  shows "beam_count st (if t = 0 then min B N else B)"
  using assms beam_step0_count beam_expand_count
  by (auto simp: beam_step_def split: if_splits option.splits)

lemma beam_state_after_count:
  assumes "beam_state_after net N B h K V dec t = Inr (Some st)"
  shows "beam_count st (if t = 0 then min B N else B)"
proof -
  from assms have "beam_loop net N B h K V (decoder_reset dec) [0..<Suc t] None = Inr (Some st)"
    by (simp add: beam_state_after_def)
  from beam_loop_last[OF this] obtain sto' where
    "beam_step net N B h K V (decoder_reset dec) t sto' = Inr st" by auto
  from beam_step_count[OF this] show ?thesis .
qed

section \<open>The selection rule and the placeholders of \<open>forward\<close>\<close>

lemma start_query_sampler:
  "start_query (net\<lparr>sample_categorical := s\<rparr>) n h = start_query net n h"
  by (simp add: start_query_def cong: if_cong sum.case_cong)

lemma greedy_step_sampler:
  "greedy_step (net\<lparr>sample_categorical := s\<rparr>) True h K V t st
   = greedy_step net True h K V t st"
  by (simp add: greedy_step_def choose_next_def cong: if_cong sum.case_cong prod.case_cong)

lemma greedy_loop_sampler:
  "greedy_loop (net\<lparr>sample_categorical := s\<rparr>) True h K V ts st
   = greedy_loop net True h K V ts st"
  by (induction ts arbitrary: st)
    (simp_all add: greedy_step_sampler cong: if_cong sum.case_cong)

lemma forward_greedy_sampler:
  "forward_greedy (net\<lparr>sample_categorical := s\<rparr>) n h K V = forward_greedy net n h K V"
  by (simp add: forward_greedy_def start_query_sampler greedy_loop_sampler
      cong: if_cong sum.case_cong)

lemma next_queries_sampler:
  "next_queries (net\<lparr>sample_categorical := s\<rparr>) h idx t = next_queries net h idx t"
  by (simp add: next_queries_def cong: if_cong sum.case_cong)

lemma beam_step_sampler:
  "beam_step (net\<lparr>sample_categorical := s\<rparr>) n B h K V d t sto
   = beam_step net n B h K V d t sto"
  by (simp add: beam_step_def beam_step0_def beam_expand_def start_query_sampler
      next_queries_sampler cong: if_cong sum.case_cong prod.case_cong option.case_cong)

lemma beam_loop_sampler:
  "beam_loop (net\<lparr>sample_categorical := s\<rparr>) n B h K V d ts sto
   = beam_loop net n B h K V d ts sto"
  by (induction ts arbitrary: sto)
    (simp_all add: beam_step_sampler cong: if_cong sum.case_cong)

lemma forward_beamsearch_sampler:
  "forward_beamsearch (net\<lparr>sample_categorical := s\<rparr>) n B h K V d
   = forward_beamsearch net n B h K V d"
  by (simp add: forward_beamsearch_def beam_loop_sampler cong: if_cong sum.case_cong)

text \<open>
  Claim C7. The greedy branch has the two selection rules, but \<open>forward\<close> sets
  \<open>deterministic = True\<close> itself: whatever the sampler, every call returns the same
  result, so categorical sampling never chooses a node.
\<close>

theorem forward_never_samples:
  "map_sum id snd (forward (net\<lparr>sample_categorical := s\<rparr>) nb_nodes x B greedy beamsearch)
   = map_sum id snd (forward net nb_nodes x B greedy beamsearch)"
  by (simp add: forward_def forward_greedy_sampler forward_beamsearch_sampler Let_def
      split: sum.splits prod.splits)

text \<open>
  Claim C9. When \<open>forward\<close> returns and the greedy flag is off, \<open>tours_greedy\<close> is the
  zero tensor of size \<open>(2, nb_nodes)\<close> and \<open>scores_greedy\<close> the zero tensor of size \<open>(2)\<close>,
  and likewise for the beam search: the leading dimension 2 does not depend on the batch
  size. With both flags off and \<open>B \<ge> 0\<close> the call returns these placeholders.
\<close>

theorem forward_placeholders:
  "(forward net nb_nodes x B greedy beamsearch = Inr (net', r) \<longrightarrow>
     (\<not> greedy \<longrightarrow> tours_greedy r = replicate 2 (replicate nb_nodes 0) \<and>
                    scores_greedy r = replicate 2 (Some 0)) \<and>
     (\<not> beamsearch \<longrightarrow>
        tours_beamsearch r = Placeholder (replicate 2 (replicate nb_nodes 0)) \<and>
        scores_beamsearch r = replicate 2 (Some 0)))
   \<and> (0 \<le> B \<longrightarrow> (\<exists>net'. forward net nb_nodes x B False False = Inr (net',
        \<lparr>tours_greedy = replicate 2 (replicate nb_nodes 0),
         tours_beamsearch = Placeholder (replicate 2 (replicate nb_nodes 0)),
         scores_greedy = replicate 2 (Some 0),
         scores_beamsearch = replicate 2 (Some 0)\<rparr>)))"
  by (auto simp: forward_def Let_def split: sum.splits prod.splits if_splits)

lemma example_forward_beam_only:
  "map_sum id snd (forward example_uniform 2 [[(0, 0), (1, 0)], [(0, 0), (0, 1)], [(1, 1), (2, 2)]]
      2 False True)
   = Inr \<lparr>tours_greedy = [[0, 0], [0, 0]],
          tours_beamsearch = Beams [[[0, 1], [1, 0]], [[0, 1], [1, 0]], [[0, 1], [1, 0]]],
          scores_greedy = [Some 0, Some 0],
          scores_beamsearch = [Some (ln (1 / 2)), Some (ln (1 / 2)), Some (ln (1 / 2))]\<rparr>"
  by (simp add: forward_def forward_beamsearch_def example_uniform_def eval_rules example_final)

theorem forward_placeholders_witness:
  "map_sum id snd (forward example_uniform 2 [[(0, 0), (1, 0)], [(0, 0), (0, 1)], [(1, 1), (2, 2)]]
      2 False True)
   = Inr \<lparr>tours_greedy = [[0, 0], [0, 0]],
          tours_beamsearch = Beams [[[0, 1], [1, 0]], [[0, 1], [1, 0]], [[0, 1], [1, 0]]],
          scores_greedy = [Some 0, Some 0],
          scores_beamsearch = [Some (ln (1 / 2)), Some (ln (1 / 2)), Some (ln (1 / 2))]\<rparr> \<and>
   [[0, 0], [0, 0]] = replicate 2 (replicate 2 (0::nat)) \<and>
   [Some 0, Some 0] = replicate 2 (Some (0::real)) \<and>
   (0::int) \<le> 2 \<and>
   (\<exists>net'. forward example_uniform 2 [[(0, 0), (1, 0)], [(0, 0), (0, 1)], [(1, 1), (2, 2)]]
      2 False False = Inr (net',
        \<lparr>tours_greedy = replicate 2 (replicate 2 0),
         tours_beamsearch = Placeholder (replicate 2 (replicate 2 0)),
         scores_greedy = replicate 2 (Some 0),
         scores_beamsearch = replicate 2 (Some 0)\<rparr>))"
proof -
  let ?x = "[[(0, 0), (1, 0)], [(0, 0), (0, 1)], [(1, 1), (2, 2 :: real)]]"
  from example_forward_beam_only obtain net' r where
    f: "forward example_uniform 2 ?x 2 False True = Inr (net', r)"
    and r: "tours_greedy r = [[0, 0], [0, 0]]" "scores_greedy r = [Some 0, Some 0]"
    by (cases "forward example_uniform 2 ?x 2 False True") auto
  from forward_placeholders [of example_uniform 2 ?x 2 False True net' r] f r
  have "[[0, 0], [0, 0]] = replicate 2 (replicate 2 (0::nat))"
    "[Some 0, Some 0] = replicate 2 (Some (0::real))"
    by simp_all
  with example_forward_beam_only forward_placeholders [of example_uniform 2 ?x 2 False True net' r]
  show ?thesis by simp
qed

section \<open>Greedy tours are permutations\<close>

lemma visited_ok_unvisited:
  assumes "visited_ok N m vis" "length vis < N"
  shows "\<exists>n<N. \<not> m ! n"
proof -
  from assms(1) have d: "distinct vis" and s: "set vis \<subseteq> {..<N}"
    and m: "\<forall>n<N. m ! n \<longleftrightarrow> n \<in> set vis"
    by (auto simp: visited_ok_def)
  from d have "card (set vis) = length vis" by (rule distinct_card)
  with assms(2) have "card (set vis) < card {..<N}" by simp
  with s have "set vis \<noteq> {..<N}" by auto
  with s obtain n where "n < N" "n \<notin> set vis" by auto
  with m show ?thesis by auto
qed

lemma visited_ok_extend:
  assumes "visited_ok N m vis" "n < length m" "\<not> m ! n"
  shows "n < N" "n \<notin> set vis" "visited_ok N (m[n := True]) (vis @ [n])"
proof -
  from assms(1) have l: "length m = N + 1" and mN: "m ! N" and d: "distinct vis"
    and s: "set vis \<subseteq> {..<N}" and m: "\<forall>k<N. m ! k \<longleftrightarrow> k \<in> set vis"
    by (auto simp: visited_ok_def)
  from assms(2,3) l mN show n: "n < N" by (cases "n = N") auto
  with m assms(3) show nv: "n \<notin> set vis" by auto
  show "visited_ok N (m[n := True]) (vis @ [n])"
    unfolding visited_ok_def using l mN d s m n nv assms(2)
    by (auto simp: nth_list_update)
qed

lemma visited_ok_complete:
  assumes "visited_ok N m vis" "length vis = N"
  shows "is_tour N vis"
proof -
  from assms(1) have d: "distinct vis" and s: "set vis \<subseteq> {..<N}"
    by (auto simp: visited_ok_def)
  from d assms(2) have "card (set vis) = card {..<N}" by (simp add: distinct_card)
  with s have "set vis = {..<N}" by (intro card_subset_eq) auto
  with d show ?thesis by (simp add: is_tour_def)
qed

lemma visited_ok_fresh:
  "length xs = N + 1 \<Longrightarrow> \<forall>n<N. \<not> xs ! n \<Longrightarrow> visited_ok N (xs[N := True]) []"
  by (auto simp: visited_ok_def nth_list_update)

lemma length_start_mask: "length (start_mask bsz N) = bsz"
  by (simp add: start_mask_def)

lemma start_mask_row: "b < bsz \<Longrightarrow> visited_ok N (start_mask bsz N ! b) []"
proof -
  assume b: "b < bsz"
  have "visited_ok N ((replicate (N + 1) False)[N := True]) []"
    by (rule visited_ok_fresh) (simp_all del: replicate.simps replicate_Suc)
  with b show ?thesis unfolding start_mask_def by (simp only: nth_replicate)
qed

lemma mask_respecting_row:
  assumes "mask_respecting fa" "fa h k v m = Inr p" "j < length m" "\<not> m ! j"
    "1 < length m"
  shows "length p = length m" and "\<And>i. i < length m \<Longrightarrow> 0 < p ! i \<longleftrightarrow> \<not> m ! i"
proof -
  from assms(1,2,5) show "length p = length m" unfolding mask_respecting_def by blast
  from assms(3,4) have "\<exists>j<length m. \<not> m ! j" by blast
  with assms(1,2,5)
  have a: "\<forall>i<length m. (m ! i \<longrightarrow> p ! i = 0) \<and> (\<not> m ! i \<longrightarrow> 0 < p ! i)"
    unfolding mask_respecting_def by blast
  fix i assume "i < length m"
  with a show "0 < p ! i \<longleftrightarrow> \<not> m ! i" by auto
qed

lemma greedy_step_inv:
  assumes "greedy_step net True h_encoder K V t' st = Inr st'"
    and "greedy_inv N t st" and "t < N"
    and "mask_respecting (final_attn (gs_decoder st))"
  shows "greedy_inv N (Suc t) st'" "final_attn (gs_decoder st') = final_attn (gs_decoder st)"
proof -
  from assms(1) obtain dec prob idx msk where
    df: "decoder_forward (gs_decoder st) (gs_h_t st) K V (gs_mask st) = Inr (dec, prob)"
    and ch: "choose_next net True prob = Inr idx"
    and li: "length idx = length (gs_mask st)"
    and sm: "seq_e (map2 set_true (gs_mask st) idx) = Inr msk"
    and e: "gs_mask st' = msk" "gs_tours st' = gs_tours st @ [idx]" "gs_decoder st' = dec"
    by (rule greedy_stepE)
  from decoder_forward_props(2)[OF df] e(3)
  show "final_attn (gs_decoder st') = final_attn (gs_decoder st)" by simp
  from assms(2) have lt: "length (gs_tours st) = t"
    and lc: "\<forall>c\<in>set (gs_tours st). length c = length (gs_mask st)"
    and vo: "\<forall>b<length (gs_mask st). visited_ok N (gs_mask st ! b) (map (\<lambda>c. c ! b) (gs_tours st))"
    by (auto simp: greedy_inv_def)
  have lm: "length msk = length (gs_mask st)"
    using seq_e_map2_props(1)[OF sm] li by simp
  have lp: "length prob = length (gs_mask st)" by (rule decoder_forward_props(1)[OF df])
  from ch have am: "seq_e (map argmax prob) = Inr idx" by (simp add: choose_next_def)
  have row: "visited_ok N (msk ! b) (map (\<lambda>c. c ! b) (gs_tours st) @ [idx ! b])"
    if b: "b < length (gs_mask st)" for b
  proof -
    let ?m = "gs_mask st ! b" and ?vis = "map (\<lambda>c. c ! b) (gs_tours st)"
    from vo b have v: "visited_ok N ?m ?vis" by simp
    then have lmN: "length ?m = N + 1" by (simp add: visited_ok_def)
    from visited_ok_unvisited[OF v] lt assms(3) obtain j where j: "j < N" "\<not> ?m ! j" by auto
    from decoder_forward_props(3)[OF df b] obtain hv kv vv where
      p: "final_attn (gs_decoder st) hv kv vv ?m = Inr (prob ! b)" by blast
    from j lmN have jl: "j < length ?m" and l1: "1 < length ?m" by simp_all
    note mr = mask_respecting_row[OF assms(4) p jl j(2) l1]
    from seq_e_map_nth[OF am, of b] b lp have a: "argmax (prob ! b) = Inr (idx ! b)" by simp
    from argmax_props[OF a] mr(1) have il: "idx ! b < length ?m"
      and mx: "prob ! b ! j \<le> prob ! b ! (idx ! b)" using jl by auto
    from mr(2)[OF jl] j(2) have "0 < prob ! b ! j" by simp
    with mx have "0 < prob ! b ! (idx ! b)" by simp
    with mr(2)[OF il] have um: "\<not> ?m ! (idx ! b)" by simp
    from seq_e_map2_props(2)[OF sm, of b] b li
    have "set_true ?m (idx ! b) = Inr (msk ! b)" by simp
    then have "msk ! b = ?m[idx ! b := True]" by (auto simp: set_true_def split: if_splits)
    with visited_ok_extend(3)[OF v il um] show ?thesis by simp
  qed
  show "greedy_inv N (Suc t) st'"
    unfolding greedy_inv_def e using lt lc li lm row by auto
qed

lemma greedy_loop_inv:
  assumes "greedy_loop net True h_encoder K V [t..<N] st = Inr st'"
    and "greedy_inv N t st" and "t \<le> N"
    and "mask_respecting (final_attn (gs_decoder st))"
  shows "greedy_inv N N st'"
  using assms
proof (induction "N - t" arbitrary: t st)
  case 0
  then show ?case by simp
next
  case (Suc d)
  then have tN: "t < N" by simp
  then have u: "[t..<N] = t # [Suc t..<N]" by (rule upt_conv_Cons)
  from Suc.prems(1) obtain st1 where
    s: "greedy_step net True h_encoder K V t st = Inr st1"
    and r: "greedy_loop net True h_encoder K V [Suc t..<N] st1 = Inr st'"
    unfolding u by (auto split: sum.splits)
  note i = greedy_step_inv[OF s Suc.prems(2) tN Suc.prems(4)]
  from Suc.hyps(2) have d: "d = N - Suc t" by simp
  from Suc.hyps(1)[OF d r i(1)] tN i(2) Suc.prems(4) show ?case by simp
qed

lemma forward_greedy_tours:
  assumes "forward_greedy net N h_encoder K V = Inr (dec, trs, scs)"
    and "mask_respecting (final_attn (decoder net))"
  shows "list_all (is_tour N) trs"
proof -
  let ?st0 = "\<lparr>gs_decoder = decoder_reset (decoder net), gs_h_t = h_start,
      gs_mask = start_mask (length h_encoder) N, gs_tours = [], gs_logprobs = []\<rparr>"
  from assms(1) obtain h_start st where
    l: "greedy_loop net True h_encoder K V [0..<N]
          \<lparr>gs_decoder = decoder_reset (decoder net), gs_h_t = h_start,
           gs_mask = start_mask (length h_encoder) N, gs_tours = [], gs_logprobs = []\<rparr> = Inr st"
    and t: "stack_dim1 (length h_encoder) (gs_tours st) = Inr trs"
    by (auto simp: forward_greedy_def Let_def split: sum.splits)
  have i0: "greedy_inv N 0 \<lparr>gs_decoder = decoder_reset (decoder net), gs_h_t = h_start,
           gs_mask = start_mask (length h_encoder) N, gs_tours = [], gs_logprobs = []\<rparr>"
    by (simp add: greedy_inv_def length_start_mask start_mask_row)
  have m0: "mask_respecting (final_attn (gs_decoder \<lparr>gs_decoder = decoder_reset (decoder net),
       gs_h_t = h_start, gs_mask = start_mask (length h_encoder) N, gs_tours = [],
       gs_logprobs = []\<rparr>))"
    using assms(2) by simp
  from greedy_loop_inv[OF l i0 _ m0] have inv: "greedy_inv N N st" by simp
  from greedy_loop_mask[OF l] have lm: "length (gs_mask st) = length h_encoder"
    by (simp add: length_start_mask)
  from t have trs: "trs = map (\<lambda>b. map (\<lambda>c. c ! b) (gs_tours st)) [0..<length h_encoder]"
    by (auto simp: stack_dim1_def split: if_splits)
  have "is_tour N (map (\<lambda>c. c ! b) (gs_tours st))" if "b < length h_encoder" for b
  proof -
    from inv that lm have "visited_ok N (gs_mask st ! b) (map (\<lambda>c. c ! b) (gs_tours st))"
      and "length (gs_tours st) = N"
      by (auto simp: greedy_inv_def)
    then show ?thesis by (intro visited_ok_complete) auto
  qed
  then show ?thesis by (simp add: trs list_all_iff)
qed

section \<open>The beams kept by a step are unvisited extensions\<close>

lemma score_le_None: "x \<le> None \<Longrightarrow> x = None" for x :: score
  by (cases x) auto

lemma topk_all_finite:
  fixes xs :: "score list"
  assumes "topk xs k = Inr (vals, idx)"
    and "k \<le> card {j. j < length xs \<and> xs ! j \<noteq> None}"
    and "i \<in> set idx"
  shows "xs ! i \<noteq> None"
proof
  assume n: "xs ! i = None"
  let ?F = "{j. j < length xs \<and> xs ! j \<noteq> None}"
  have ck: "card (set idx) = k"
    using topk_props(1,3)[OF assms(1)] by (simp add: distinct_card)
  have "\<not> ?F \<subseteq> set idx"
  proof
    assume "?F \<subseteq> set idx"
    with n have "?F \<subseteq> set idx - {i}" by auto
    then have "card ?F \<le> card (set idx - {i})" by (intro card_mono) auto
    also have "\<dots> < card (set idx)" using assms(3) by (intro card_Diff1_less) auto
    finally show False using ck assms(2) by simp
  qed
  then obtain j where j: "j < length xs" "xs ! j \<noteq> None" "j \<notin> set idx" by auto
  from topk_props(6)[OF assms(1) assms(3) j(1) j(3)] n have "xs ! j = None"
    by (simp add: score_le_None)
  with j(2) show False by simp
qed

lemma visited_ok_unvisited_card:
  assumes "visited_ok N m vis"
  shows "card {n. n < N + 1 \<and> \<not> m ! n} = N - length vis"
proof -
  from assms have mN: "m ! N" and d: "distinct vis" and s: "set vis \<subseteq> {..<N}"
    and m: "\<forall>k<N. m ! k \<longleftrightarrow> k \<in> set vis"
    by (auto simp: visited_ok_def)
  have "{n. n < N + 1 \<and> \<not> m ! n} = {..<N} - set vis"
  proof (intro set_eqI iffI)
    fix n assume "n \<in> {n. n < N + 1 \<and> \<not> m ! n}"
    then have a: "n < N + 1" "\<not> m ! n" by auto
    with mN have "n < N" by (cases "n = N") auto
    with a m show "n \<in> {..<N} - set vis" by auto
  next
    fix n assume "n \<in> {..<N} - set vis"
    with m show "n \<in> {n. n < N + 1 \<and> \<not> m ! n}" by auto
  qed
  moreover have "card ({..<N} - set vis) = card {..<N} - card (set vis)"
    using s by (intro card_Diff_subset) auto
  ultimately show ?thesis using d by (simp add: distinct_card)
qed

lemma log_t_finite: "log_t p \<noteq> None \<longleftrightarrow> 0 < p"
  by (auto simp: log_t_def)

lemma score_add_finite: "score_add a b \<noteq> None \<longleftrightarrow> a \<noteq> None \<and> b \<noteq> None"
  by (auto simp: score_add_def split: option.splits)


lemma div_block: "n < k \<Longrightarrow> (s * k + n) div k = s" for k :: nat
  by (cases "k = 0") simp_all

lemma block_rest: "0 < k \<Longrightarrow> a - (a div k) * k < k" for k :: nat
  by (simp add: minus_div_mult_eq_mod)

lemma block_decomp: "a = (a div k) * k + (a - (a div k) * k)" for k :: nat
  by (simp add: minus_div_mult_eq_mod)

lemma beam_row_selection:
  fixes ps :: "real list list" and ss :: "score list"
  assumes len: "length ms = Bp" "length ps = Bp" "length ss = Bp"
    and ok: "\<And>s. s < Bp \<Longrightarrow> visited_ok N (ms ! s) (vis s) \<and> length (vis s) = t \<and>
               ss ! s \<noteq> None \<and> length (ps ! s) = N + 1 \<and>
               (\<forall>n<N + 1. 0 < ps ! s ! n \<longleftrightarrow> \<not> ms ! s ! n)"
    and tk: "topk (concat (map2 (\<lambda>p s. map (\<lambda>q. score_add (log_t q) s) p) ps ss)) B
               = Inr (vals, idx)"
    and B: "B \<le> Bp * (N - t)"
    and i: "i < B"
  shows "idx ! i div (N + 1) < Bp"
    and "idx ! i - (idx ! i div (N + 1)) * (N + 1) < N + 1"
    and "\<not> ms ! (idx ! i div (N + 1)) ! (idx ! i - (idx ! i div (N + 1)) * (N + 1))"
    and "vals ! i \<noteq> None"
proof -
  let ?blocks = "map2 (\<lambda>p s. map (\<lambda>q. score_add (log_t q) s) p) ps ss"
  let ?xs = "concat ?blocks"
  let ?F = "{j. j < length ?xs \<and> ?xs ! j \<noteq> None}"
  have lb: "length ?blocks = Bp" using len by simp
  have ub: "list_all (\<lambda>r. length r = N + 1) ?blocks"
    using len ok by (auto simp: list_all_length)
  have lx: "length ?xs = Bp * (N + 1)"
    using concat_uniform_length[OF ub] lb by simp
  have entry: "?xs ! (s * (N + 1) + n) = score_add (log_t (ps ! s ! n)) (ss ! s)"
    if "s < Bp" "n < N + 1" for s n
  proof -
    have "?xs ! (s * (N + 1) + n) = ?blocks ! s ! n"
      using that lb by (intro concat_nth_uniform[OF ub]) auto
    also have "\<dots> = score_add (log_t (ps ! s ! n)) (ss ! s)"
      using that len ok[OF that(1)] by simp
    finally show ?thesis .
  qed
  have fin: "?xs ! (s * (N + 1) + n) \<noteq> None \<longleftrightarrow> \<not> ms ! s ! n"
    if "s < Bp" "n < N + 1" for s n
  proof -
    from ok[OF that(1)] that(2) have a: "ss ! s \<noteq> None"
      and b: "0 < ps ! s ! n \<longleftrightarrow> \<not> ms ! s ! n" by blast+
    have "?xs ! (s * (N + 1) + n) \<noteq> None
        \<longleftrightarrow> log_t (ps ! s ! n) \<noteq> None \<and> ss ! s \<noteq> None"
      unfolding entry[OF that] by (rule score_add_finite)
    with a b log_t_finite[of "ps ! s ! n"] show ?thesis by blast
  qed
  have bound: "s * (N + 1) + n < Bp * (N + 1)" if "s < Bp" "n < N + 1" for s n
  proof -
    have "s * (N + 1) + n < s * (N + 1) + (N + 1)" using that by simp
    also have "\<dots> = Suc s * (N + 1)" by simp
    also have "\<dots> \<le> Bp * (N + 1)" using that by (intro mult_le_mono1) simp
    finally show ?thesis .
  qed
  let ?A = "SIGMA s:{..<Bp}. {n. n < N + 1 \<and> \<not> ms ! s ! n}"
  let ?g = "\<lambda>(s, n). s * (N + 1) + n"
  have inj: "inj_on ?g ?A"
  proof (rule inj_onI, clarify)
    fix s n s' n'
    assume a: "n < N + 1" "n' < N + 1" and e: "s * (N + 1) + n = s' * (N + 1) + n'"
    from e have "(s * (N + 1) + n) div (N + 1) = (s' * (N + 1) + n') div (N + 1)"
      by (rule arg_cong)
    with a have "s = s'" by (simp only: div_block)
    with e show "s = s' \<and> n = n'" by simp
  qed
  have sub: "?g ` ?A \<subseteq> ?F"
    using fin bound lx by auto
  have cA: "card ?A = Bp * (N - t)"
  proof -
    have "card ?A = (\<Sum>s\<in>{..<Bp}. card {n. n < N + 1 \<and> \<not> ms ! s ! n})"
      by (intro card_SigmaI) auto
    also have "\<dots> = (\<Sum>s\<in>{..<Bp}. N - t)"
    proof (intro sum.cong refl)
      fix s assume "s \<in> {..<Bp}"
      then have "s < Bp" by simp
      from ok[OF this] have "visited_ok N (ms ! s) (vis s)" "length (vis s) = t" by blast+
      with visited_ok_unvisited_card[of N "ms ! s" "vis s"]
      show "card {n. n < N + 1 \<and> \<not> ms ! s ! n} = N - t" by simp
    qed
    finally show ?thesis by simp
  qed
  have "card ?A = card (?g ` ?A)" using inj by (simp add: card_image)
  also have "\<dots> \<le> card ?F" using sub by (intro card_mono) auto
  finally have cF: "B \<le> card ?F" using cA B by simp
  have li: "length idx = B" by (rule topk_props(1)[OF tk])
  with i have mem: "idx ! i \<in> set idx" by simp
  from topk_all_finite[OF tk cF mem] have f: "?xs ! (idx ! i) \<noteq> None" .
  from topk_props(4)[OF tk] mem lx have il: "idx ! i < Bp * (N + 1)" by auto
  then show s: "idx ! i div (N + 1) < Bp"
    by (simp add: less_mult_imp_div_less)
  show n: "idx ! i - (idx ! i div (N + 1)) * (N + 1) < N + 1"
    by (rule block_rest) simp
  have "idx ! i = (idx ! i div (N + 1)) * (N + 1) + (idx ! i - (idx ! i div (N + 1)) * (N + 1))"
    by (rule block_decomp)
  with fin[OF s n] f
  show "\<not> ms ! (idx ! i div (N + 1)) ! (idx ! i - (idx ! i div (N + 1)) * (N + 1))"
    by simp
  from topk_props(5)[OF tk] i li f show "vals ! i \<noteq> None" by simp
qed

section \<open>Beam-search tours are permutations\<close>

lemma decoder_reorder_final:
  "decoder_reorder dec t idx = Inr dec' \<Longrightarrow> final_attn dec' = final_attn dec"
  by (auto simp: decoder_reorder_def split: sum.splits)

lemma decoder_repeat_final:
  "decoder_repeat dec B = Inr dec' \<Longrightarrow> final_attn dec' = final_attn dec"
  by (auto simp: decoder_repeat_def split: sum.splits)

lemma take_Suc_update: "t < length xs \<Longrightarrow> take (Suc t) (xs[t := n]) = take t xs @ [n]"
  by (simp add: take_Suc_conv_app_nth)

lemma view_beams_props:
  assumes "view_beams bsz Bp n rows = Inr pv" "length rows = bsz * Bp"
  shows "length pv = bsz"
    and "\<And>b. b < bsz \<Longrightarrow> length (pv ! b) = Bp"
    and "\<And>b s. b < bsz \<Longrightarrow> s < Bp \<Longrightarrow> pv ! b ! s = rows ! (b * Bp + s)"
proof -
  from assms(1) have pv: "pv = map (\<lambda>b. take Bp (drop (b * Bp) rows)) [0..<bsz]"
    by (auto simp: view_beams_def split: if_splits)
  then show "length pv = bsz" by simp
  have le: "b * Bp + Bp \<le> bsz * Bp" if "b < bsz" for b
  proof -
    have "b * Bp + Bp = Suc b * Bp" by simp
    also have "\<dots> \<le> bsz * Bp" using that by (intro mult_le_mono1) simp
    finally show ?thesis .
  qed
  show "length (pv ! b) = Bp" if "b < bsz" for b
    using le[OF that] that assms(2) by (simp add: pv)
  show "pv ! b ! s = rows ! (b * Bp + s)" if "b < bsz" "s < Bp" for b s
    using le[OF that(1)] that assms(2) by (simp add: pv)
qed

lemma beam_expand_inv:
  assumes ex: "beam_expand net N B Bp h_encoder Kt Vt t st = Inr st'"
    and inv: "beam_inv N (length h_encoder) t Bp st"
    and tN: "t < N" and BB: "B \<le> Bp * (N - t)"
    and mr: "mask_respecting (final_attn (bs_decoder st))"
  shows "beam_inv N (length h_encoder) (Suc t) B st'"
    and "final_attn (bs_decoder st') = final_attn (bs_decoder st)"
proof -
  let ?bsz = "length h_encoder"
  from ex obtain dec prob_flat prob and tops :: "(score list \<times> nat list) list"
    and msk_src msk trs_src trs dec' where
    df: "decoder_forward (bs_decoder st) (concat (bs_h_t st)) (bs_K_att st) (bs_V_att st)
       (concat (bs_mask st)) = Inr (dec, prob_flat)"
    and vb: "view_beams ?bsz Bp (N + 1) prob_flat = Inr prob"
    and tk: "seq_e (map (\<lambda>r. topk r B)
       (map concat (map2 (\<lambda>ps ss. map2 (\<lambda>p s. map (\<lambda>q. score_add (log_t q) s) p) ps ss)
          prob (bs_sum_scores st)))) = Inr tops"
    and g: "gather_beams (bs_mask st) (map (map (\<lambda>i. i div (N + 1))) (map snd tops)) = Inr msk_src"
    and m: "mark_visited msk_src (map2 (map2 (\<lambda>i j. i - j * (N + 1))) (map snd tops)
        (map (map (\<lambda>i. i div (N + 1))) (map snd tops))) = Inr msk"
    and g': "gather_beams (bs_tours st) (map (map (\<lambda>i. i div (N + 1))) (map snd tops)) = Inr trs_src"
    and w: "write_step trs_src t (map2 (map2 (\<lambda>i j. i - j * (N + 1))) (map snd tops)
        (map (map (\<lambda>i. i div (N + 1))) (map snd tops))) = Inr trs"
    and ro: "decoder_reorder dec t (map (map (\<lambda>i. i div (N + 1))) (map snd tops)) = Inr dec'"
    and e: "bs_mask st' = msk" "bs_tours st' = trs" "bs_sum_scores st' = map fst tops"
      "bs_decoder st' = dec'"
    by (rule beam_expandE)
  let ?top = "map (map (\<lambda>i. i div (N + 1))) (map snd tops)"
  let ?inb = "map2 (map2 (\<lambda>i j. i - j * (N + 1))) (map snd tops) ?top"
  let ?R = "map2 (\<lambda>ps ss. map2 (\<lambda>p s. map (\<lambda>q. score_add (log_t q) s) p) ps ss)
          prob (bs_sum_scores st)"
  show fa: "final_attn (bs_decoder st') = final_attn (bs_decoder st)"
    using decoder_reorder_final[OF ro] decoder_forward_props(2)[OF df] e(4) by simp
  from inv have lt: "length (bs_tours st) = ?bsz" and lm: "length (bs_mask st) = ?bsz"
    and ls: "length (bs_sum_scores st) = ?bsz"
    and rows: "\<And>b. b < ?bsz \<Longrightarrow> length (bs_tours st ! b) = Bp \<and>
        length (bs_mask st ! b) = Bp \<and> length (bs_sum_scores st ! b) = Bp"
    and beams: "\<And>b i. b < ?bsz \<Longrightarrow> i < Bp \<Longrightarrow> length (bs_tours st ! b ! i) = N \<and>
        visited_ok N (bs_mask st ! b ! i) (take t (bs_tours st ! b ! i)) \<and>
        bs_sum_scores st ! b ! i \<noteq> None"
    by (auto simp: beam_inv_def)
  have um: "list_all (\<lambda>r. length r = Bp) (bs_mask st)"
    using lm rows by (auto simp: list_all_length)
  have lcm: "length (concat (bs_mask st)) = ?bsz * Bp"
    using concat_uniform_length[OF um] lm by simp
  have lpf: "length prob_flat = ?bsz * Bp"
    using decoder_forward_props(1)[OF df] lcm by simp
  note vp = view_beams_props[OF vb lpf]
  have flat_idx: "b * Bp + s < ?bsz * Bp" if "b < ?bsz" "s < Bp" for b s
  proof -
    have "b * Bp + s < b * Bp + Bp" using that by simp
    also have "\<dots> = Suc b * Bp" by simp
    also have "\<dots> \<le> ?bsz * Bp" using that by (intro mult_le_mono1) simp
    finally show ?thesis .
  qed
  have prow: "length (prob ! b ! s) = N + 1 \<and>
      (\<forall>n<N + 1. 0 < prob ! b ! s ! n \<longleftrightarrow> \<not> bs_mask st ! b ! s ! n)"
    if b: "b < ?bsz" and s: "s < Bp" for b s
  proof -
    let ?m = "bs_mask st ! b ! s"
    from beams[OF b s] have v: "visited_ok N ?m (take t (bs_tours st ! b ! s))"
      and ln: "length (bs_tours st ! b ! s) = N" by auto
    from v have lmN: "length ?m = N + 1" by (simp add: visited_ok_def)
    from visited_ok_unvisited[OF v] ln tN obtain j where j: "j < N" "\<not> ?m ! j" by auto
    have cm: "concat (bs_mask st) ! (b * Bp + s) = ?m"
      using b lm s by (intro concat_nth_uniform[OF um]) auto
    from decoder_forward_props(3)[OF df, of "b * Bp + s"] flat_idx[OF b s] lcm cm
    obtain hv kv vv where
      p: "final_attn (bs_decoder st) hv kv vv ?m = Inr (prob_flat ! (b * Bp + s))" by auto
    from vp(3)[OF b s] p have p': "final_attn (bs_decoder st) hv kv vv ?m = Inr (prob ! b ! s)"
      by simp
    from j lmN have jl: "j < length ?m" and l1: "1 < length ?m" by simp_all
    from mask_respecting_row[OF mr p' jl j(2) l1] lmN show ?thesis by auto
  qed
  have lR: "length ?R = ?bsz" using vp(1) ls by simp
  have ltops: "length tops = ?bsz" using seq_e_length[OF tk] lR by simp
  have tkb: "topk (concat (map2 (\<lambda>p s. map (\<lambda>q. score_add (log_t q) s) p) (prob ! b)
      (bs_sum_scores st ! b))) B = Inr (fst (tops ! b), snd (tops ! b))"
    if b: "b < ?bsz" for b
  proof -
    have bl: "b < length (map concat ?R)" using b lR by simp
    have eq: "(map concat ?R) ! b = concat (map2 (\<lambda>p s. map (\<lambda>q. score_add (log_t q) s) p)
      (prob ! b) (bs_sum_scores st ! b))"
      using b vp(1) ls by simp
    from seq_e_map_nth[OF tk bl]
    have "topk (concat (map2 (\<lambda>p s. map (\<lambda>q. score_add (log_t q) s) p)
      (prob ! b) (bs_sum_scores st ! b))) B = Inr (tops ! b)"
      unfolding eq .
    then show ?thesis by (simp only: prod.collapse)
  qed
  have lidx: "length (snd (tops ! b)) = B" if b: "b < ?bsz" for b
    by (rule topk_props(1)[OF tkb[OF b]])
  have sel: "snd (tops ! b) ! i div (N + 1) < Bp \<and>
      snd (tops ! b) ! i - (snd (tops ! b) ! i div (N + 1)) * (N + 1) < N + 1 \<and>
      \<not> bs_mask st ! b ! (snd (tops ! b) ! i div (N + 1))
           ! (snd (tops ! b) ! i - (snd (tops ! b) ! i div (N + 1)) * (N + 1)) \<and>
      fst (tops ! b) ! i \<noteq> None"
    if b: "b < ?bsz" and i: "i < B" for b i
  proof -
    have ok: "visited_ok N (bs_mask st ! b ! s) (take t (bs_tours st ! b ! s)) \<and>
        length (take t (bs_tours st ! b ! s)) = t \<and> bs_sum_scores st ! b ! s \<noteq> None \<and>
        length (prob ! b ! s) = N + 1 \<and>
        (\<forall>n<N + 1. 0 < prob ! b ! s ! n \<longleftrightarrow> \<not> bs_mask st ! b ! s ! n)"
      if "s < Bp" for s
    proof -
      from beams[OF b that] have "length (bs_tours st ! b ! s) = N" by blast
      with tN have "length (take t (bs_tours st ! b ! s)) = t" by simp
      with beams[OF b that] prow[OF b that] show ?thesis by blast
    qed
    have l3: "length (bs_mask st ! b) = Bp" "length (prob ! b) = Bp"
      "length (bs_sum_scores st ! b) = Bp"
      using rows[OF b] vp(2)[OF b] by blast+
    from beam_row_selection[OF l3 ok tkb[OF b] BB i] show ?thesis by blast
  qed
  have ltop: "length ?top = ?bsz" "length ?inb = ?bsz" using ltops by simp_all
  have topi: "?top ! b ! i = snd (tops ! b) ! i div (N + 1)"
    and inbi: "?inb ! b ! i = snd (tops ! b) ! i - (snd (tops ! b) ! i div (N + 1)) * (N + 1)"
    and lrow: "length (?top ! b) = B" "length (?inb ! b) = B"
    if b: "b < ?bsz" and i: "i < B" for b i
    using b i ltops lidx[OF b] by simp_all
  have lrow0: "length (?top ! b) = B" "length (?inb ! b) = B" if b: "b < ?bsz" for b
    using b ltops lidx[OF b] by simp_all
  have lms: "length msk_src = ?bsz" using gather_beams_props(1)[OF g] lm ltop by simp
  have lts: "length trs_src = ?bsz" using gather_beams_props(1)[OF g'] lt ltop by simp
  have lmsk: "length msk = ?bsz" using mark_visited_props(1)[OF m] lms ltop by simp
  have ltrs: "length trs = ?bsz" using write_step_props(1)[OF w] lts ltop by simp
  have rms: "length (msk_src ! b) = B" if b: "b < ?bsz" for b
    using gather_beams_props(2)[OF g, of b] b lm ltop lrow0[OF b] by simp
  have rts: "length (trs_src ! b) = B" if b: "b < ?bsz" for b
    using gather_beams_props(2)[OF g', of b] b lt ltop lrow0[OF b] by simp
  have rmsk: "length (msk ! b) = B" if b: "b < ?bsz" for b
    using mark_visited_props(2)[OF m, of b] b lms ltop rms[OF b] lrow0[OF b] by simp
  have rtrs: "length (trs ! b) = B" if b: "b < ?bsz" for b
    using write_step_props(2)[OF w, of b] b lts ltop rts[OF b] lrow0[OF b] by simp
  have beam: "length (trs ! b ! i) = N \<and> visited_ok N (msk ! b ! i) (take (Suc t) (trs ! b ! i))
      \<and> map fst tops ! b ! i \<noteq> None"
    if b: "b < ?bsz" and i: "i < B" for b i
  proof -
    let ?src = "snd (tops ! b) ! i div (N + 1)"
    let ?n = "snd (tops ! b) ! i - ?src * (N + 1)"
    from sel[OF b i] have src: "?src < Bp" and n: "?n < N + 1"
      and um: "\<not> bs_mask st ! b ! ?src ! ?n" and fin: "fst (tops ! b) ! i \<noteq> None" by auto
    from beams[OF b src] have ln: "length (bs_tours st ! b ! ?src) = N"
      and v: "visited_ok N (bs_mask st ! b ! ?src) (take t (bs_tours st ! b ! ?src))" by auto
    from v have lmN: "length (bs_mask st ! b ! ?src) = N + 1" by (simp add: visited_ok_def)
    have ms: "msk_src ! b ! i = bs_mask st ! b ! ?src"
      using gather_beams_props(3)[OF g, of b i] b i lm ltop lrow0[OF b] topi[OF b i] by simp
    have ts: "trs_src ! b ! i = bs_tours st ! b ! ?src"
      using gather_beams_props(3)[OF g', of b i] b i lt ltop lrow0[OF b] topi[OF b i] by simp
    have mk: "msk ! b ! i = (bs_mask st ! b ! ?src)[?n := True]"
      using mark_visited_props(3)[OF m, of b i] b i lms ltop rms[OF b] lrow0[OF b]
        inbi[OF b i] ms by simp
    have tr: "trs ! b ! i = (bs_tours st ! b ! ?src)[t := ?n]"
      using write_step_props(3)[OF w, of b i] b i lts ltop rts[OF b] lrow0[OF b]
        inbi[OF b i] ts by simp
    from n lmN have nl: "?n < length (bs_mask st ! b ! ?src)" by simp
    from visited_ok_extend(3)[OF v nl um]
    have "visited_ok N (msk ! b ! i) (take t (bs_tours st ! b ! ?src) @ [?n])"
      by (simp add: mk)
    moreover have "take (Suc t) (trs ! b ! i) = take t (bs_tours st ! b ! ?src) @ [?n]"
      unfolding tr using ln tN by (intro take_Suc_update) simp
    moreover have "length (trs ! b ! i) = N" using ln by (simp add: tr)
    moreover have "map fst tops ! b ! i \<noteq> None" using fin b ltops by simp
    ultimately show ?thesis by simp
  qed
  have lf: "length (map fst tops ! b) = B" if b: "b < ?bsz" for b
    using topk_props(1,5)[OF tkb[OF b]] b ltops by simp
  show "beam_inv N ?bsz (Suc t) B st'"
    unfolding beam_inv_def e
    using ltrs lmsk ltops rtrs rmsk lf beam by auto
qed


lemma beam_step0_inv:
  assumes ex: "beam_step0 net N B h_encoder Kt Vt dec0 = Inr st"
    and mr: "mask_respecting (final_attn dec0)"
  shows "beam_inv N (length h_encoder) (Suc 0) (min B N) st"
    and "final_attn (bs_decoder st) = final_attn dec0"
proof -
  let ?bsz = "length h_encoder" and ?Bt = "min B N"
  let ?m0 = "start_mask ?bsz N"
  from ex obtain h_start dec prob and tops :: "(score list \<times> nat list) list"
    and msk trs dec' where
    df: "decoder_forward dec0 h_start Kt Vt ?m0 = Inr (dec, prob)"
    and tk: "seq_e (map (\<lambda>r. topk (map log_t r) ?Bt) prob) = Inr tops"
    and m: "mark_visited (map (replicate ?Bt) ?m0) (map snd tops) = Inr msk"
    and w: "write_step (replicate ?bsz (replicate ?Bt (replicate N 0))) 0 (map snd tops)
              = Inr trs"
    and rp: "decoder_repeat dec ?Bt = Inr dec'"
    and e: "bs_mask st = msk" "bs_tours st = trs" "bs_sum_scores st = map fst tops"
      "bs_decoder st = dec'"
    by (rule beam_step0E)
  show "final_attn (bs_decoder st) = final_attn dec0"
    using decoder_repeat_final[OF rp] decoder_forward_props(2)[OF df] e(4) by simp
  have lp: "length prob = ?bsz"
    using decoder_forward_props(1)[OF df] by (simp add: length_start_mask)
  have ltops: "length tops = ?bsz" using seq_e_length[OF tk] lp by simp
  have tkb: "topk (map log_t (prob ! b)) ?Bt = Inr (fst (tops ! b), snd (tops ! b))"
    if b: "b < ?bsz" for b
  proof -
    from b lp have "b < length prob" by simp
    from seq_e_map_nth[OF tk this] show ?thesis by (simp only: prod.collapse)
  qed
  have lidx: "length (snd (tops ! b)) = ?Bt" if b: "b < ?bsz" for b
    by (rule topk_props(1)[OF tkb[OF b]])
  have lf: "length (map fst tops ! b) = ?Bt" if b: "b < ?bsz" for b
    using topk_props(1,5)[OF tkb[OF b]] b ltops by simp
  have lmsk: "length msk = ?bsz"
    using mark_visited_props(1)[OF m] ltops by (simp add: length_start_mask)
  have ltrs: "length trs = ?bsz" using write_step_props(1)[OF w] ltops by simp
  have rmsk: "length (msk ! b) = ?Bt" if b: "b < ?bsz" for b
    using mark_visited_props(2)[OF m, of b] b ltops lidx[OF b]
    by (simp add: length_start_mask)
  have rtrs: "length (trs ! b) = ?Bt" if b: "b < ?bsz" for b
    using write_step_props(2)[OF w, of b] b ltops lidx[OF b] by simp
  have beam: "length (trs ! b ! i) = N \<and>
      visited_ok N (msk ! b ! i) (take (Suc 0) (trs ! b ! i)) \<and> map fst tops ! b ! i \<noteq> None"
    if b: "b < ?bsz" and i: "i < ?Bt" for b i
  proof -
    let ?m = "?m0 ! b" and ?n = "snd (tops ! b) ! i"
    from i have N0: "0 < N" by simp
    have v: "visited_ok N ?m []" by (rule start_mask_row[OF b])
    then have lmN: "length ?m = N + 1" by (simp add: visited_ok_def)
    from visited_ok_unvisited[OF v] N0 obtain j where j: "j < N" "\<not> ?m ! j" by auto
    from j lmN have jl: "j < length ?m" and l1: "1 < length ?m" by simp_all
    from decoder_forward_props(3)[OF df, of b] b obtain hv kv vv where
      p: "final_attn dec0 hv kv vv ?m = Inr (prob ! b)" by (auto simp: length_start_mask)
    note row = mask_respecting_row[OF mr p jl j(2) l1]
    let ?xs = "map log_t (prob ! b)"
    have lx: "length ?xs = N + 1" using row(1) lmN by simp
    have fin: "?xs ! k \<noteq> None \<longleftrightarrow> \<not> ?m ! k" if "k < N + 1" for k
    proof -
      from that row(1) lmN have "?xs ! k = log_t (prob ! b ! k)" by simp
      moreover from that lmN have "0 < prob ! b ! k \<longleftrightarrow> \<not> ?m ! k"
        by (intro row(2)) simp
      ultimately show ?thesis using log_t_finite[of "prob ! b ! k"] by metis
    qed
    have "{k. k < length ?xs \<and> ?xs ! k \<noteq> None} = {k. k < N + 1 \<and> \<not> ?m ! k}"
      unfolding lx using fin by blast
    with visited_ok_unvisited_card[OF v]
    have cF: "?Bt \<le> card {k. k < length ?xs \<and> ?xs ! k \<noteq> None}" by simp
    from i lidx[OF b] have mem: "?n \<in> set (snd (tops ! b))" by simp
    from topk_all_finite[OF tkb[OF b] cF mem] have f: "?xs ! ?n \<noteq> None" .
    from topk_props(4)[OF tkb[OF b]] mem row(1) have nl: "?n < length ?m" by auto
    with lmN have "?n < N + 1" by simp
    from fin[OF this] f have um: "\<not> ?m ! ?n" by blast
    have mk: "msk ! b ! i = ?m[?n := True]"
      using mark_visited_props(3)[OF m, of b i] b i ltops lidx[OF b]
      by (simp add: length_start_mask)
    have tr: "trs ! b ! i = (replicate N 0)[0 := ?n]"
      using write_step_props(3)[OF w, of b i] b i ltops lidx[OF b] by simp
    from visited_ok_extend(3)[OF v nl um] have "visited_ok N (msk ! b ! i) [?n]"
      by (simp add: mk)
    moreover have "take (Suc 0) (trs ! b ! i) = [?n]"
      unfolding tr using N0 take_Suc_update[of 0 "replicate N 0" ?n] by simp
    moreover have "length (trs ! b ! i) = N" by (simp add: tr)
    moreover have "map fst tops ! b ! i \<noteq> None"
      using topk_props(5)[OF tkb[OF b]] f i lidx[OF b] b ltops by simp
    ultimately show ?thesis by simp
  qed
  show "beam_inv N ?bsz (Suc 0) ?Bt st"
    unfolding beam_inv_def e
    using ltrs lmsk ltops rtrs rmsk lf beam by auto
qed


lemma beam_width_enough:
  fixes t N B :: nat
  assumes "1 \<le> t" "t < N" "N = 1 \<or> B \<le> N * (N - 1)"
  shows "B \<le> (if t = 1 then min B N else B) * (N - t)"
proof (cases "t = 1")
  case True
  with assms have h: "B \<le> N * (N - 1)" and N2: "2 \<le> N" by auto
  show ?thesis
  proof (cases "B \<le> N")
    case True
    have "B * 1 \<le> B * (N - 1)" using N2 by (intro mult_le_mono2) simp
    with True \<open>t = 1\<close> show ?thesis by (simp add: min_def)
  next
    case False
    with h \<open>t = 1\<close> show ?thesis by (simp add: min_def)
  qed
next
  case False
  have "B * 1 \<le> B * (N - t)" using assms(2) by (intro mult_le_mono2) simp
  with False show ?thesis by simp
qed

lemma beam_loop_inv:
  assumes "beam_loop net N B h_encoder Kt Vt dec0 [t..<N] (Some st) = Inr sto'"
    and "beam_inv N (length h_encoder) t (if t = 1 then min B N else B) st"
    and "1 \<le> t" and "t \<le> N" and "N = 1 \<or> B \<le> N * (N - 1)"
    and "mask_respecting (final_attn (bs_decoder st))"
  shows "\<exists>st' Bf. sto' = Some st' \<and> beam_inv N (length h_encoder) N Bf st'"
  using assms
proof (induction "N - t" arbitrary: t st)
  case 0
  then show ?case by auto
next
  case (Suc d)
  then have tN: "t < N" by simp
  then have u: "[t..<N] = t # [Suc t..<N]" by (rule upt_conv_Cons)
  let ?Bp = "if t = 1 then min B N else B"
  from Suc.prems(1) obtain st1 where
    s: "beam_step net N B h_encoder Kt Vt dec0 t (Some st) = Inr st1"
    and r: "beam_loop net N B h_encoder Kt Vt dec0 [Suc t..<N] (Some st1) = Inr sto'"
    unfolding u by (auto split: sum.splits)
  from s Suc.prems(3) have ex: "beam_expand net N B ?Bp h_encoder Kt Vt t st = Inr st1"
    by (auto simp: beam_step_def split: if_splits)
  note w = beam_width_enough[OF Suc.prems(3) tN Suc.prems(5)]
  note i = beam_expand_inv[OF ex Suc.prems(2) tN w Suc.prems(6)]
  from Suc.prems(3) have "(if Suc t = 1 then min B N else B) = B" by simp
  with i(1) have i1: "beam_inv N (length h_encoder) (Suc t)
      (if Suc t = 1 then min B N else B) st1" by simp
  from Suc.hyps(2) have d: "d = N - Suc t" by simp
  from i(2) Suc.prems(6) have m1: "mask_respecting (final_attn (bs_decoder st1))" by simp
  from Suc.hyps(1)[OF d r i1 _ _ Suc.prems(5) m1] tN show ?case by simp
qed

lemma beam_inv_complete:
  assumes "beam_inv N bsz N Bf st"
  shows "list_all (list_all (is_tour N)) (bs_tours st)"
proof -
  have "is_tour N (bs_tours st ! b ! i)" if "b < bsz" "i < Bf" for b i
  proof -
    from assms that have "length (bs_tours st ! b ! i) = N \<and>
        visited_ok N (bs_mask st ! b ! i) (take N (bs_tours st ! b ! i))"
      unfolding beam_inv_def by blast
    then have l: "length (bs_tours st ! b ! i) = N"
      and v: "visited_ok N (bs_mask st ! b ! i) (take N (bs_tours st ! b ! i))"
      by blast+
    from v l have "visited_ok N (bs_mask st ! b ! i) (bs_tours st ! b ! i)" by simp
    from visited_ok_complete[OF this l] show ?thesis .
  qed
  moreover from assms have "length (bs_tours st) = bsz"
    "\<And>b. b < bsz \<Longrightarrow> length (bs_tours st ! b) = Bf"
    by (auto simp: beam_inv_def)
  ultimately show ?thesis by (auto simp: list_all_length)
qed

lemma forward_beamsearch_tours:
  assumes "forward_beamsearch net N B h_encoder K V dec = Inr (dec', trs, scs)"
    and "mask_respecting (final_attn dec)"
    and "N = 1 \<or> B \<le> N * (N - 1)"
  shows "list_all (list_all (is_tour N)) trs"
proof -
  let ?d = "decoder_reset dec"
  from assms(1) obtain st where
    l: "beam_loop net N B h_encoder K V ?d [0..<N] None = Inr (Some st)"
    and t: "trs = bs_tours st"
    by (auto simp: forward_beamsearch_def split: sum.splits option.splits)
  from l have N0: "0 < N" by (cases "N = 0") auto
  then have u: "[0..<N] = 0 # [Suc 0..<N]" by (rule upt_conv_Cons)
  from l obtain st0 where
    s: "beam_step0 net N B h_encoder K V ?d = Inr st0"
    and r: "beam_loop net N B h_encoder K V ?d [Suc 0..<N] (Some st0) = Inr (Some st)"
    unfolding u by (auto simp: beam_step_def split: sum.splits)
  from assms(2) have m: "mask_respecting (final_attn ?d)" by simp
  note i = beam_step0_inv[OF s m]
  from i(1) have i1: "beam_inv N (length h_encoder) (Suc 0)
      (if Suc 0 = 1 then min B N else B) st0" by simp
  from i(2) m have m0: "mask_respecting (final_attn (bs_decoder st0))" by simp
  from beam_loop_inv[OF r i1 _ _ assms(3) m0] N0 obtain Bf where
    "beam_inv N (length h_encoder) N Bf st" by auto
  from beam_inv_complete[OF this] t show ?thesis by simp
qed

lemma greedy_step_final:
  assumes "greedy_step net det h_encoder K V t st = Inr st'"
  shows "final_attn (gs_decoder st') = final_attn (gs_decoder st)"
proof -
  from assms obtain dec prob where
    "decoder_forward (gs_decoder st) (gs_h_t st) K V (gs_mask st) = Inr (dec, prob)"
    "gs_decoder st' = dec"
    by (rule greedy_stepE)
  with decoder_forward_props(2) show ?thesis by metis
qed

lemma greedy_loop_final:
  "greedy_loop net det h_encoder K V ts st = Inr st' \<Longrightarrow>
   final_attn (gs_decoder st') = final_attn (gs_decoder st)"
proof (induction ts arbitrary: st)
  case Nil
  then show ?case by simp
next
  case (Cons t ts)
  from Cons.prems obtain st1 where
    s: "greedy_step net det h_encoder K V t st = Inr st1"
    and r: "greedy_loop net det h_encoder K V ts st1 = Inr st'"
    by (auto split: sum.splits)
  from Cons.IH[OF r] greedy_step_final[OF s] show ?case by simp
qed

lemma forward_greedy_final:
  assumes "forward_greedy net N h_encoder K V = Inr (dec, trs, scs)"
  shows "final_attn dec = final_attn (decoder net)"
proof -
  from assms obtain h_start st where
    l: "greedy_loop net True h_encoder K V [0..<N]
          \<lparr>gs_decoder = decoder_reset (decoder net), gs_h_t = h_start,
           gs_mask = start_mask (length h_encoder) N, gs_tours = [], gs_logprobs = []\<rparr> = Inr st"
    and d: "dec = gs_decoder st"
    by (auto simp: forward_greedy_def Let_def split: sum.splits)
  from greedy_loop_final[OF l] d show ?thesis by simp
qed

text \<open>
  Claim C1 (as amended). When \<open>forward\<close> returns, every greedy tour is a permutation of
  \<open>0, \<dots>, N-1\<close>, and so is every tour of every retained beam provided the beam width
  satisfies \<open>B \<le> N * (N-1)\<close> (or \<open>N = 1\<close>); in particular the index \<open>N\<close> of the start token
  occurs in no such tour.
\<close>

theorem forward_tours_are_permutations:
  assumes "forward net nb_nodes x B greedy beamsearch = Inr (net', r)"
    and "beamsearch \<longrightarrow> nb_nodes = 1 \<or> nat B \<le> nb_nodes * (nb_nodes - 1)"
  shows "(greedy \<longrightarrow> list_all (is_tour nb_nodes) (tours_greedy r)) \<and>
         (beamsearch \<longrightarrow> (\<exists>trs. tours_beamsearch r = Beams trs \<and>
                            list_all (list_all (is_tour nb_nodes)) trs))"
proof -
  let ?h = "encode net x"
  let ?K = "map (WK_att_decoder net) ?h" and ?V = "map (WV_att_decoder net) ?h"
  let ?r0 = "\<lparr>tours_greedy = replicate 2 (replicate nb_nodes 0),
                tours_beamsearch = Placeholder (replicate 2 (replicate nb_nodes 0)),
                scores_greedy = replicate 2 (Some 0),
                scores_beamsearch = replicate 2 (Some 0)\<rparr>"
  from assms(1) obtain dec1 r1 where
    g: "(if greedy
         then (case forward_greedy net nb_nodes ?h ?K ?V of Inl e \<Rightarrow> Inl e
               | Inr (dec, trs, scs) \<Rightarrow>
                   Inr (dec, ?r0\<lparr>tours_greedy := trs, scores_greedy := scs\<rparr>))
         else Inr (decoder net, ?r0)) = Inr (dec1, r1)"
    and b: "(if beamsearch
             then (case forward_beamsearch net nb_nodes (nat B) ?h ?K ?V dec1 of
                     Inl e \<Rightarrow> Inl e
                   | Inr (dec2, trs, scs) \<Rightarrow>
                       Inr (net\<lparr>decoder := dec2\<rparr>,
                            r1\<lparr>tours_beamsearch := Beams trs, scores_beamsearch := scs\<rparr>))
             else Inr (net\<lparr>decoder := dec1\<rparr>, r1)) = Inr (net', r)"
    by (auto simp: forward_def Let_def split: if_splits sum.splits prod.splits)
  have tg: "tours_greedy r = tours_greedy r1"
    using b by (auto split: if_splits sum.splits prod.splits)
  have G: "list_all (is_tour nb_nodes) (tours_greedy r)" if greedy
  proof -
    from g that obtain dec trs scs where
      f: "forward_greedy net nb_nodes ?h ?K ?V = Inr (dec, trs, scs)"
      and "r1 = ?r0\<lparr>tours_greedy := trs, scores_greedy := scs\<rparr>"
      by (auto split: sum.splits prod.splits)
    with forward_greedy_tours[OF f final_attn_mask_respecting] tg show ?thesis by simp
  qed
  have Bm: "\<exists>trs. tours_beamsearch r = Beams trs \<and> list_all (list_all (is_tour nb_nodes)) trs"
    if beamsearch
  proof -
    from b that obtain dec2 trs scs where
      f: "forward_beamsearch net nb_nodes (nat B) ?h ?K ?V dec1 = Inr (dec2, trs, scs)"
      and "r = r1\<lparr>tours_beamsearch := Beams trs, scores_beamsearch := scs\<rparr>"
      by (auto split: sum.splits prod.splits)
    moreover have "mask_respecting (final_attn dec1)" by (rule final_attn_mask_respecting)
    moreover from assms(2) that have "nb_nodes = 1 \<or> nat B \<le> nb_nodes * (nb_nodes - 1)"
      by simp
    ultimately show ?thesis using forward_beamsearch_tours by fastforce
  qed
  from G Bm show ?thesis by blast
qed

text \<open>
  A decode of four nodes in both modes with beam width 2, on weights for which the
  scores compared at every step are pairwise different.
\<close>

lemma example_forward_both:
  "map_sum id snd (forward (example_net example_ranked None) 4
      [[(0, 0), (1, 0), (2, 0), (3, 0)]] 2 True True)
   = Inr \<lparr>tours_greedy = [[3, 2, 1, 0]],
          tours_beamsearch = Beams [[[3, 2, 1, 0], [2, 3, 1, 0]]],
          scores_greedy = [Some (ln (2 / 15))],
          scores_beamsearch = [Some (ln (2 / 15))]\<rparr>"
  by (simp add: forward_def forward_greedy_def forward_beamsearch_def eval_rules example_final)

theorem forward_tours_are_permutations_witness:
  "map_sum id snd (forward (example_net example_ranked None) 4
      [[(0, 0), (1, 0), (2, 0), (3, 0)]] 2 True True)
   = Inr \<lparr>tours_greedy = [[3, 2, 1, 0]],
          tours_beamsearch = Beams [[[3, 2, 1, 0], [2, 3, 1, 0]]],
          scores_greedy = [Some (ln (2 / 15))],
          scores_beamsearch = [Some (ln (2 / 15))]\<rparr> \<and>
   nat 2 \<le> 4 * (4 - 1 :: nat) \<and>
   list_all (is_tour 4) [[3, 2, 1, 0]] \<and>
   list_all (list_all (is_tour 4)) [[[3, 2, 1, 0], [2, 3, 1, 0]]]"
proof -
  let ?x = "[[(0, 0), (1, 0), (2, 0), (3, 0 :: real)]]"
  let ?W = "example_net example_ranked None"
  from example_forward_both obtain net' r where
    f: "forward ?W 4 ?x 2 True True = Inr (net', r)"
    and r: "tours_greedy r = [[3, 2, 1, 0]]"
      "tours_beamsearch r = Beams [[[3, 2, 1, 0], [2, 3, 1, 0]]]"
    by (cases "forward ?W 4 ?x 2 True True") auto
  have w: "True \<longrightarrow> (4::nat) = 1 \<or> nat 2 \<le> 4 * (4 - 1 :: nat)" by simp
  from forward_tours_are_permutations [OF f w] r
  have "list_all (is_tour 4) [[3, 2, 1, 0]]"
    "list_all (list_all (is_tour 4)) [[[3, 2, 1, 0], [2, 3, 1, 0]]]"
    by simp_all
  with example_forward_both show ?thesis by simp
qed

text \<open>
  The claim as stated fails for a beam width above \<open>N * (N-1)\<close>. With two nodes and
  \<open>B = 3\<close>, step 1 has only two unvisited (beam, node) pairs, with the tours \<open>[0, 1]\<close> and
  \<open>[1, 0]\<close>; the third pair kept is a masked one, of score \<open>-inf\<close>, and whichever of the four
  masked pairs the selection takes, the third returned tour is one of \<open>[0, 0]\<close>, \<open>[0, 2]\<close>,
  \<open>[1, 1]\<close> and \<open>[1, 2]\<close>, none of them a permutation of the two nodes.
\<close>

theorem beam_width_three_counterexample:
  "(\<exists>net' r trs. forward example_uniform 2 [[(0, 0), (1, 0)]] 3 False True = Inr (net', r) \<and>
      tours_beamsearch r = Beams trs \<and>
      map (map (is_tour 2)) trs = [[True, True, False]] \<and>
      trs ! 0 ! 2 \<in> {[0, 0], [0, 2], [1, 1], [1, 2]}) \<and>
   \<not> list_all (is_tour 2) [[0, 0], [0, 2], [1, 1], [1, 2]] \<and>
   \<not> nat 3 \<le> 2 * (2 - 1 :: nat)"
proof -
  have "map_sum id snd (forward example_uniform 2 [[(0, 0), (1, 0)]] 3 False True)
   = Inr \<lparr>tours_greedy = [[0, 0], [0, 0]],
          tours_beamsearch = Beams [[[0, 1], [1, 0], [0, 0]]],
          scores_greedy = [Some 0, Some 0],
          scores_beamsearch = [Some (ln (1 / 2))]\<rparr>"
    by (simp add: forward_def forward_beamsearch_def example_uniform_def eval_rules
        example_final)
  then obtain net' r where
    f: "forward example_uniform 2 [[(0, 0), (1, 0)]] 3 False True = Inr (net', r)"
    and r: "tours_beamsearch r = Beams [[[0, 1], [1, 0], [0, 0]]]"
    by (cases "forward example_uniform 2 [[(0, 0), (1, 0)]] 3 False True") auto
  have t: "map (map (is_tour 2)) [[[0, 1], [1, 0], [0, 0]]] = [[True, True, False]]"
    by (auto simp: is_tour_def)
  have n: "\<not> list_all (is_tour 2) [[0, 0], [0, 2], [1, 1], [1, 2]]"
    by (simp add: is_tour_def)
  from f r t n show ?thesis by auto
qed

section \<open>Well-shaped decodes do not raise\<close>

lemma seq_e_total:
  "(\<And>r. r \<in> set rs \<Longrightarrow> \<exists>v. r = Inr v) \<Longrightarrow> \<exists>vs. seq_e rs = Inr vs"
proof (induction rs)
  case Nil
  then show ?case by simp
next
  case (Cons r rs)
  then obtain v where "r = Inr v" by auto
  moreover from Cons obtain vs where "seq_e rs = Inr vs" by auto
  ultimately show ?case by simp
qed

lemma key_len_of_next:
  assumes "positive_window sl"
  shows "(case sl of None \<Rightarrow> key_len_of sl t + 1 | Some s \<Rightarrow> min (key_len_of sl t + 1) s)
         = key_len_of sl (Suc t)"
    and "(case sl of None \<Rightarrow> 1 | Some s \<Rightarrow> min 1 s) = key_len_of sl 0"
  using assms by (cases sl; auto simp: key_len_of_def positive_window_def)+

lemma truncate_cache_length: "length (truncate_cache sl K) = length K"
  by (cases sl) (simp_all add: truncate_cache_def)

lemma layer_forward_total_cold:
  assumes "K_sa lay = None" and "positive_window (segm_len lay)"
    and "length K_att = length h_t" "length V_att = length h_t" "length msk = length h_t"
  shows "\<exists>lay' out. layer_forward lay h_t K_att V_att msk = Inr (lay', out) \<and>
           length out = length h_t \<and>
           layer_ready lay' (length h_t) (key_len_of (segm_len lay') 0)"
proof -
  let ?k = "map (\<lambda>h. [Wk_selfatt lay h]) h_t" and ?v = "map (\<lambda>h. [Wv_selfatt lay h]) h_t"
  let ?lay' = "lay\<lparr>K_sa := Some (truncate_cache (segm_len lay) ?k),
                   V_sa := Some (truncate_cache (segm_len lay) ?v)\<rparr>"
  from assms obtain out where
    f: "layer_forward lay h_t K_att V_att msk = Inr (?lay', out)" and lo: "length out = length h_t"
    by (simp add: layer_forward_def Let_def)
  have a: "list_all (\<lambda>r. int (length r) = 1) (map (\<lambda>h. [g h]) h_t)" for g :: "'a \<Rightarrow> 'a"
    by (simp add: list_all_iff)
  from truncate_cache_rows[OF a assms(2)] key_len_of_next(2)[OF assms(2)]
  have "layer_ready ?lay' (length h_t) (key_len_of (segm_len ?lay') 0)"
    using assms(2) by (simp add: layer_ready_def cache_rows_length_def truncate_cache_length)
  with f lo show ?thesis by blast
qed

lemma layer_forward_total_warm:
  assumes "layer_ready lay (length h_t) (key_len_of (segm_len lay) t)"
    and "length K_att = length h_t" "length V_att = length h_t" "length msk = length h_t"
  shows "\<exists>lay' out. layer_forward lay h_t K_att V_att msk = Inr (lay', out) \<and>
           length out = length h_t \<and>
           layer_ready lay' (length h_t) (key_len_of (segm_len lay') (Suc t))"
proof -
  let ?n = "key_len_of (segm_len lay) t"
  from assms(1) obtain K V where K: "K_sa lay = Some K" and V: "V_sa lay = Some V"
    and lK: "length K = length h_t" and lV: "length V = length h_t"
    and rK: "list_all (\<lambda>r. int (length r) = ?n) K" and rV: "list_all (\<lambda>r. int (length r) = ?n) V"
    and pw: "positive_window (segm_len lay)"
    by (auto simp: layer_ready_def cache_rows_length_def split: option.splits)
  let ?k = "map (\<lambda>h. [Wk_selfatt lay h]) h_t" and ?v = "map (\<lambda>h. [Wv_selfatt lay h]) h_t"
  have cK: "cat_cache (Some K) ?k = Inr (map2 (@) K ?k)"
    and cV: "cat_cache (Some V) ?v = Inr (map2 (@) V ?v)"
    using lK lV by (simp_all add: cat_cache_def)
  let ?lay' = "lay\<lparr>K_sa := Some (truncate_cache (segm_len lay) (map2 (@) K ?k)),
                   V_sa := Some (truncate_cache (segm_len lay) (map2 (@) V ?v))\<rparr>"
  from assms(2-4) K V cK cV obtain out where
    f: "layer_forward lay h_t K_att V_att msk = Inr (?lay', out)" and lo: "length out = length h_t"
    by (simp add: layer_forward_def Let_def)
  note tK = truncate_cache_rows[OF cat_cache_rows[OF cK rK] pw]
  note tV = truncate_cache_rows[OF cat_cache_rows[OF cV rV] pw]
  from tK tV key_len_of_next(1)[OF pw, of t]
  have "layer_ready ?lay' (length h_t) (key_len_of (segm_len ?lay') (Suc t))"
    using pw lK lV by (simp add: layer_ready_def cache_rows_length_def truncate_cache_length)
  with f lo show ?thesis by blast
qed

lemma layers_forward_total:
  assumes "\<And>lay h l. lay \<in> set ls \<Longrightarrow> length h = R \<Longrightarrow>
      \<exists>lay' out. layer_forward lay h (map (\<lambda>r. r l) K_att) (map (\<lambda>r. r l) V_att) msk
           = Inr (lay', out) \<and> length out = R \<and> Q lay'"
    and "length h_t = R"
  shows "\<exists>ls' h'. layers_forward ls l h_t K_att V_att msk = Inr (ls', h') \<and>
           length h' = R \<and> list_all Q ls' \<and> length ls' = length ls"
  using assms
proof (induction ls arbitrary: l h_t)
  case Nil
  then show ?case by simp
next
  case (Cons lay ls)
  from Cons.prems(1)[of lay h_t l] Cons.prems(2) obtain lay' out where
    f: "layer_forward lay h_t (map (\<lambda>r. r l) K_att) (map (\<lambda>r. r l) V_att) msk = Inr (lay', out)"
    and lo: "length out = R" and q: "Q lay'" by auto
  have "\<exists>ls' h'. layers_forward ls (Suc l) out K_att V_att msk = Inr (ls', h') \<and>
           length h' = R \<and> list_all Q ls' \<and> length ls' = length ls"
    using Cons.prems(1) lo by (intro Cons.IH) auto
  then obtain ls' h' where
    "layers_forward ls (Suc l) out K_att V_att msk = Inr (ls', h')" "length h' = R"
    "list_all Q ls'" "length ls' = length ls" by blast
  with f q show ?case by simp
qed

lemma decoder_forward_total:
  assumes "\<And>lay h l. lay \<in> set (decoder_layers dec) \<Longrightarrow> length h = R \<Longrightarrow>
      \<exists>lay' out. layer_forward lay h (map (\<lambda>r. r l) K_att) (map (\<lambda>r. r l) V_att) msk
           = Inr (lay', out) \<and> length out = R \<and> Q lay'"
    and "length h_t = R" "length K_att = R" "length V_att = R" "length msk = R"
    and "\<And>b h. b < R \<Longrightarrow> \<exists>p. final_attn dec h ((K_att ! b) (length (decoder_layers dec)))
           ((V_att ! b) (length (decoder_layers dec))) (msk ! b) = Inr p"
  shows "\<exists>dec' prob. decoder_forward dec h_t K_att V_att msk = Inr (dec', prob) \<and>
           list_all Q (decoder_layers dec') \<and> final_attn dec' = final_attn dec"
proof -
  let ?L = "length (decoder_layers dec)"
  from layers_forward_total[of "decoder_layers dec" R K_att V_att msk Q h_t 0, OF assms(1,2)]
  obtain ls' h' where
    l: "layers_forward (decoder_layers dec) 0 h_t K_att V_att msk = Inr (ls', h')"
    and lh: "length h' = R" and q: "list_all Q ls'" by blast
  have "\<exists>prob. seq_e (map (\<lambda>b. final_attn dec (h' ! b) ((K_att ! b) ?L) ((V_att ! b) ?L)
      (msk ! b)) [0..<length h']) = Inr prob"
  proof (rule seq_e_total)
    fix r assume "r \<in> set (map (\<lambda>b. final_attn dec (h' ! b) ((K_att ! b) ?L) ((V_att ! b) ?L)
      (msk ! b)) [0..<length h'])"
    then obtain b where "b < R"
      "r = final_attn dec (h' ! b) ((K_att ! b) ?L) ((V_att ! b) ?L) (msk ! b)"
      using lh by auto
    with assms(6)[of b "h' ! b"] show "\<exists>v. r = Inr v" by simp
  qed
  then obtain prob where "seq_e (map (\<lambda>b. final_attn dec (h' ! b) ((K_att ! b) ?L)
      ((V_att ! b) ?L) (msk ! b)) [0..<length h']) = Inr prob" ..
  with l lh q assms(3-5) show ?thesis by (simp add: decoder_forward_def Let_def)
qed

lemma seq_e_map_total:
  assumes "\<And>x. x \<in> set xs \<Longrightarrow> \<exists>y. f x = Inr y \<and> P y"
  shows "\<exists>ys. seq_e (map f xs) = Inr ys \<and> list_all P ys \<and> length ys = length xs"
  using assms
proof (induction xs)
  case Nil
  then show ?case by simp
next
  case (Cons x xs)
  from Cons.prems[of x] obtain y where y: "f x = Inr y" "P y" by auto
  from Cons obtain ys where "seq_e (map f xs) = Inr ys" "list_all P ys" "length ys = length xs"
    by auto
  with y show ?case by simp
qed

lemma length_repeat_interleave: "length (repeat_interleave B xs) = length xs * B"
  by (induction xs) (simp_all add: repeat_interleave_def)

lemma set_repeat_interleave: "set (repeat_interleave B xs) \<subseteq> set xs"
  by (auto simp: repeat_interleave_def)

lemma repeat_layer_total:
  assumes "layer_ready lay R n"
  shows "\<exists>lay'. repeat_selfatt_keys_values lay B = Inr lay' \<and> layer_ready lay' (R * B) n \<and>
           segm_len lay' = segm_len lay"
proof -
  from assms obtain K V where K: "K_sa lay = Some K" and V: "V_sa lay = Some V"
    and lK: "length K = R" and lV: "length V = R"
    and rK: "list_all (\<lambda>r. int (length r) = n) K" and rV: "list_all (\<lambda>r. int (length r) = n) V"
    and pw: "positive_window (segm_len lay)"
    by (auto simp: layer_ready_def cache_rows_length_def split: option.splits)
  let ?lay' = "lay\<lparr>K_sa := Some (repeat_interleave B K), V_sa := Some (repeat_interleave B V)\<rparr>"
  have "repeat_selfatt_keys_values lay B = Inr ?lay'"
    by (simp add: repeat_selfatt_keys_values_def K V)
  moreover have "list_all (\<lambda>r. int (length r) = n) (repeat_interleave B K)"
    "list_all (\<lambda>r. int (length r) = n) (repeat_interleave B V)"
    using rK rV set_repeat_interleave[of B K] set_repeat_interleave[of B V]
    by (auto simp: list_all_iff)
  ultimately show ?thesis using pw lK lV
    by (simp add: layer_ready_def cache_rows_length_def length_repeat_interleave)
qed

lemma decoder_repeat_total:
  assumes "list_all (\<lambda>lay. layer_ready lay R (key_len_of (segm_len lay) t)) (decoder_layers dec)"
  shows "\<exists>dec'. decoder_repeat dec B = Inr dec' \<and>
           list_all (\<lambda>lay. layer_ready lay (R * B) (key_len_of (segm_len lay) t))
             (decoder_layers dec') \<and>
           final_attn dec' = final_attn dec"
proof -
  have "\<exists>lay'. repeat_selfatt_keys_values lay B = Inr lay' \<and>
      layer_ready lay' (R * B) (key_len_of (segm_len lay') t)"
    if "lay \<in> set (decoder_layers dec)" for lay
  proof -
    from assms that have "layer_ready lay R (key_len_of (segm_len lay) t)"
      by (simp add: list_all_iff)
    from repeat_layer_total[OF this, of B] show ?thesis by auto
  qed
  from seq_e_map_total[of "decoder_layers dec" "\<lambda>lay. repeat_selfatt_keys_values lay B"
      "\<lambda>lay. layer_ready lay (R * B) (key_len_of (segm_len lay) t)", OF this]
  obtain ls where "seq_e (map (\<lambda>lay. repeat_selfatt_keys_values lay B) (decoder_layers dec)) = Inr ls"
    "list_all (\<lambda>lay. layer_ready lay (R * B) (key_len_of (segm_len lay) t)) ls" by blast
  then show ?thesis by (simp add: decoder_repeat_def)
qed

lemma key_len_of_pos: "positive_window sl \<Longrightarrow> 1 \<le> key_len_of sl t"
  by (cases sl) (auto simp: key_len_of_def positive_window_def)

lemma reorder_cache_total:
  assumes "list_all (\<lambda>r. int (length r) = int n) K" "length K = bsz * B2"
    "wf_beam_idx idx bsz B B2"
  shows "\<exists>K'. reorder_cache bsz B2 (int n) idx K = Inr K' \<and> length K' = bsz * B \<and>
           list_all (\<lambda>r. int (length r) = int n) K'"
proof -
  from assms(1) have rows: "list_all (\<lambda>r. length r = n) K" by (simp add: list_all_iff)
  from assms(3) have idx: "length idx = bsz"
    "list_all (\<lambda>ids. length ids = B \<and> list_all (\<lambda>i. i < B2) ids) idx"
    by (auto simp: wf_beam_idx_def)
  from reorder_cache_wf[OF rows assms(2) idx] obtain K' where
    K': "reorder_cache bsz B2 (int n) idx K = Inr K'" "length K' = bsz * B"
      "\<forall>b<bsz. \<forall>i<B. K' ! (b * B + i) = K ! (b * B2 + idx ! b ! i)" by blast
  have "length (K' ! j) = n" if j: "j < bsz * B" for j
  proof -
    from j have B0: "0 < B" by (cases "B = 0") auto
    let ?b = "j div B" and ?i = "j mod B"
    from j have b: "?b < bsz" by (simp add: less_mult_imp_div_less)
    from B0 have i: "?i < B" by simp
    have "j = ?b * B + ?i" by simp
    with K'(3) b i have e: "K' ! j = K ! (?b * B2 + idx ! ?b ! ?i)" by metis
    from idx b i have "idx ! ?b ! ?i < B2" by (auto simp: list_all_length)
    then have "?b * B2 + idx ! ?b ! ?i < ?b * B2 + B2" by simp
    also have "\<dots> = Suc ?b * B2" by simp
    also have "\<dots> \<le> bsz * B2" using b by (intro mult_le_mono1) simp
    finally have "?b * B2 + idx ! ?b ! ?i < length K" using assms(2) by simp
    with rows e show ?thesis by (simp add: list_all_length)
  qed
  with K'(2) have "list_all (\<lambda>r. int (length r) = int n) K'" by (simp add: list_all_length)
  with K'(1,2) show ?thesis by blast
qed

lemma reorder_layer_total:
  assumes "layer_ready lay (bsz * Bp) (key_len_of (segm_len lay) t)"
    and "wf_beam_idx idx bsz B Bp"
  shows "\<exists>lay'. reorder_selfatt_keys_values lay t idx = Inr lay' \<and>
           layer_ready lay' (bsz * B) (key_len_of (segm_len lay') t)"
proof -
  let ?kl = "key_len_of (segm_len lay) t"
  from assms(1) obtain K V where K: "K_sa lay = Some K" and V: "V_sa lay = Some V"
    and lK: "length K = bsz * Bp" and lV: "length V = bsz * Bp"
    and rK: "list_all (\<lambda>r. int (length r) = ?kl) K" and rV: "list_all (\<lambda>r. int (length r) = ?kl) V"
    and pw: "positive_window (segm_len lay)"
    by (auto simp: layer_ready_def cache_rows_length_def split: option.splits)
  define n where "n = nat ?kl"
  from key_len_of_pos[OF pw, of t] have kl: "?kl = int n" by (simp add: n_def)
  from assms(2) have bsz: "0 < bsz" "length idx = bsz" by (auto simp: wf_beam_idx_def)
  from reorder_cache_total[OF rK[unfolded kl] lK assms(2)] obtain K' where
    K': "reorder_cache bsz Bp (int n) idx K = Inr K'" "length K' = bsz * B"
      "list_all (\<lambda>r. int (length r) = int n) K'" by blast
  from reorder_cache_total[OF rV[unfolded kl] lV assms(2)] obtain V' where
    V': "reorder_cache bsz Bp (int n) idx V = Inr V'" "length V' = bsz * B"
      "list_all (\<lambda>r. int (length r) = int n) V'" by blast
  have d: "length K div bsz = Bp" using lK bsz(1) by simp
  have "reorder_selfatt_keys_values lay t idx = Inr (lay\<lparr>K_sa := Some K', V_sa := Some V'\<rparr>)"
    using K V bsz K'(1) V'(1) by (simp add: reorder_selfatt_keys_values_def Let_def kl d)
  moreover have "layer_ready (lay\<lparr>K_sa := Some K', V_sa := Some V'\<rparr>) (bsz * B)
      (key_len_of (segm_len (lay\<lparr>K_sa := Some K', V_sa := Some V'\<rparr>)) t)"
    using pw K'(2,3) V'(2,3) by (simp add: layer_ready_def cache_rows_length_def kl)
  ultimately show ?thesis by blast
qed

lemma decoder_reorder_total:
  assumes "list_all (\<lambda>lay. layer_ready lay (bsz * Bp) (key_len_of (segm_len lay) t))
             (decoder_layers dec)"
    and "wf_beam_idx idx bsz B Bp"
  shows "\<exists>dec'. decoder_reorder dec t idx = Inr dec' \<and>
           list_all (\<lambda>lay. layer_ready lay (bsz * B) (key_len_of (segm_len lay) t))
             (decoder_layers dec') \<and>
           final_attn dec' = final_attn dec"
proof -
  have "\<exists>lay'. reorder_selfatt_keys_values lay t idx = Inr lay' \<and>
      layer_ready lay' (bsz * B) (key_len_of (segm_len lay') t)"
    if "lay \<in> set (decoder_layers dec)" for lay
  proof -
    from assms(1) that have "layer_ready lay (bsz * Bp) (key_len_of (segm_len lay) t)"
      by (simp add: list_all_iff)
    from reorder_layer_total[OF this assms(2)] show ?thesis .
  qed
  from seq_e_map_total[of "decoder_layers dec" "\<lambda>lay. reorder_selfatt_keys_values lay t idx"
      "\<lambda>lay. layer_ready lay (bsz * B) (key_len_of (segm_len lay) t)", OF this]
  obtain ls where
    "seq_e (map (\<lambda>lay. reorder_selfatt_keys_values lay t idx) (decoder_layers dec)) = Inr ls"
    "list_all (\<lambda>lay. layer_ready lay (bsz * B) (key_len_of (segm_len lay) t)) ls" by blast
  then show ?thesis by (simp add: decoder_reorder_def)
qed

lemma topk_total:
  assumes "k \<le> length xs"
  shows "\<exists>tp. topk xs k = Inr tp \<and> length (snd tp) = k \<and> length (fst tp) = k \<and>
           (\<forall>i\<in>set (snd tp). i < length xs)"
proof -
  from assms obtain vals idx where t: "topk xs k = Inr (vals, idx)"
    by (auto simp: topk_def Let_def)
  from topk_props(1,4,5)[OF t] t show ?thesis by auto
qed

lemma seq_e_map2_total:
  assumes "\<And>i. i < length xs \<Longrightarrow> i < length ys \<Longrightarrow> \<exists>v. f (xs ! i) (ys ! i) = Inr v"
  shows "\<exists>vs. seq_e (map2 f xs ys) = Inr vs"
proof (rule seq_e_total)
  fix r assume "r \<in> set (map2 f xs ys)"
  then obtain i where "i < length (map2 f xs ys)" "r = map2 f xs ys ! i"
    by (auto simp: in_set_conv_nth)
  with assms[of i] show "\<exists>v. r = Inr v" by auto
qed

lemma mark_visited_total:
  assumes "\<And>b i. b < length msk \<Longrightarrow> b < length idx \<Longrightarrow> i < length (msk ! b) \<Longrightarrow>
             i < length (idx ! b) \<Longrightarrow> idx ! b ! i < length (msk ! b ! i)"
  shows "\<exists>M. mark_visited msk idx = Inr M"
  unfolding mark_visited_def
proof (rule seq_e_map2_total)
  fix b assume b: "b < length msk" "b < length idx"
  show "\<exists>v. seq_e (map2 set_true (msk ! b) (idx ! b)) = Inr v"
  proof (rule seq_e_map2_total)
    fix i assume "i < length (msk ! b)" "i < length (idx ! b)"
    with assms[OF b] show "\<exists>v. set_true (msk ! b ! i) (idx ! b ! i) = Inr v"
      by (simp add: set_true_def)
  qed
qed

lemma write_step_total:
  assumes "\<And>b i. b < length trs \<Longrightarrow> i < length (trs ! b) \<Longrightarrow> t < length (trs ! b ! i)"
  shows "\<exists>T. write_step trs t idx = Inr T"
  unfolding write_step_def
proof (rule seq_e_map2_total)
  fix b assume b: "b < length trs" "b < length idx"
  show "\<exists>v. seq_e (map2 (write_entry t) (trs ! b) (idx ! b)) = Inr v"
  proof (rule seq_e_map2_total)
    fix i assume "i < length (trs ! b)" "i < length (idx ! b)"
    with assms[OF b(1)] show "\<exists>v. write_entry t (trs ! b ! i) (idx ! b ! i) = Inr v"
      by (simp add: write_entry_def)
  qed
qed

lemma next_queries_total:
  assumes "length idx = length h_encoder"
    and "\<And>b i. b < length idx \<Longrightarrow> i \<in> set (idx ! b) \<Longrightarrow> i < length (h_encoder ! b)"
    and "t + 1 < length (PE net)"
  shows "\<exists>h. next_queries net h_encoder idx t = Inr h \<and> length h = length idx \<and>
           (\<forall>b<length idx. length (h ! b) = length (idx ! b))"
proof -
  from gather_beams_wf[of h_encoder idx] assms(1,2)
  have g: "gather_beams h_encoder idx
      = Inr (map (\<lambda>b. map (\<lambda>i. h_encoder ! b ! i) (idx ! b)) [0..<length idx])" by simp
  from assms(3) obtain pe where pe: "index_t (PE net) (int t + 1) = Inr pe"
    by (auto simp: index_t_def Let_def)
  show ?thesis by (simp add: next_queries_def g pe)
qed

lemma concat_all:
  "list_all (\<lambda>r. list_all P r) xss \<Longrightarrow> list_all P (concat xss)"
  by (auto simp: list_all_iff)

lemma beam_expand_total:
  assumes sh: "beam_shape N (length h_encoder) t0 Bp st"
    and wf: "wf_decode net N h_encoder Kt Vt dec"
    and tN: "Suc t0 < N" and BB: "B \<le> Bp * (N + 1)" and kb: "t0 \<noteq> 0 \<longrightarrow> Bp = B"
  shows "\<exists>st'. beam_expand net N B Bp h_encoder Kt Vt (Suc t0) st = Inr st' \<and>
           beam_shape N (length h_encoder) (Suc t0) B st'"
proof -
  let ?bsz = "length h_encoder" and ?t = "Suc t0"
  let ?R = "?bsz * Bp"
  from wf have bsz0: "0 < ?bsz" and hrows: "list_all (\<lambda>r. length r = N + 1) h_encoder"
    and lKt: "length Kt = ?bsz" and lVt: "length Vt = ?bsz" and pe: "N < length (PE net)"
    and kKt: "list_all (\<lambda>r. \<forall>l. length (r l) = N + 1) Kt"
    by (auto simp: wf_decode_def)
  from sh have lh: "length (bs_h_t st) = ?bsz" and rh: "list_all (\<lambda>r. length r = Bp) (bs_h_t st)"
    and lm: "length (bs_mask st) = ?bsz"
    and rm: "list_all (\<lambda>r. length r = Bp \<and> list_all (\<lambda>m. length m = N + 1) r) (bs_mask st)"
    and lt: "length (bs_tours st) = ?bsz"
    and rt: "list_all (\<lambda>r. length r = Bp \<and> list_all (\<lambda>tr. length tr = N) r) (bs_tours st)"
    and ls: "length (bs_sum_scores st) = ?bsz"
    and rs: "list_all (\<lambda>r. length r = Bp) (bs_sum_scores st)"
    and lK: "length (bs_K_att st) = ?R" and lV: "length (bs_V_att st) = ?R"
    and lay: "list_all (\<lambda>lay. layer_ready lay ?R (key_len_of (segm_len lay) t0))
       (decoder_layers (bs_decoder st))"
    and kK: "list_all (\<lambda>r. \<forall>l. length (r l) = N + 1) (bs_K_att st)"
    by (auto simp: beam_shape_def)
  let ?hf = "concat (bs_h_t st)" and ?mf = "concat (bs_mask st)"
  have lhf: "length ?hf = ?R" using concat_uniform_length[OF rh] lh by simp
  have rm1: "list_all (\<lambda>r. length r = Bp) (bs_mask st)" using rm by (auto simp: list_all_iff)
  have lmf: "length ?mf = ?R" using concat_uniform_length[OF rm1] lm by simp
  have emf: "list_all (\<lambda>m. length m = N + 1) ?mf"
    using rm by (intro concat_all) (auto simp: list_all_iff)
  \<comment> \<open>the decoder call\<close>
  have "\<exists>lay' out. layer_forward lay h (map (\<lambda>r. r l) (bs_K_att st))
          (map (\<lambda>r. r l) (bs_V_att st)) ?mf = Inr (lay', out) \<and> length out = ?R \<and>
          layer_ready lay' ?R (key_len_of (segm_len lay') ?t)"
    if "lay \<in> set (decoder_layers (bs_decoder st))" "length h = ?R" for lay h l
  proof -
    from lay that(1) have "layer_ready lay (length h) (key_len_of (segm_len lay) t0)"
      by (simp add: list_all_iff that(2))
    from layer_forward_total_warm[OF this, of "map (\<lambda>r. r l) (bs_K_att st)"
        "map (\<lambda>r. r l) (bs_V_att st)" ?mf] lK lV lmf that(2)
    show ?thesis by simp
  qed
  moreover have "\<exists>p. final_attn (bs_decoder st) h
      ((bs_K_att st ! b) (length (decoder_layers (bs_decoder st))))
      ((bs_V_att st ! b) (length (decoder_layers (bs_decoder st)))) (?mf ! b) = Inr p"
    if "b < ?R" for b h
  proof -
    from that emf lmf have "length (?mf ! b) = N + 1" by (simp add: list_all_length)
    moreover from that kK lK
    have "length ((bs_K_att st ! b) (length (decoder_layers (bs_decoder st)))) = N + 1"
      by (simp add: list_all_length)
    ultimately show ?thesis by (intro final_attn_total) simp
  qed
  ultimately obtain dec1 prob_flat where
    c1: "decoder_forward (bs_decoder st) ?hf (bs_K_att st) (bs_V_att st) ?mf = Inr (dec1, prob_flat)"
    and lay1: "list_all (\<lambda>lay. layer_ready lay ?R (key_len_of (segm_len lay) ?t))
       (decoder_layers dec1)"
    and fa1: "final_attn dec1 = final_attn (bs_decoder st)"
    using decoder_forward_total[of "bs_decoder st" ?R "bs_K_att st" "bs_V_att st" ?mf
      "\<lambda>lay. layer_ready lay ?R (key_len_of (segm_len lay) ?t)" ?hf, OF _ lhf lK lV lmf]
    by blast
  have lpf: "length prob_flat = ?R" using decoder_forward_props(1)[OF c1] lmf by simp
  have rpf: "list_all (\<lambda>r. length r = N + 1) prob_flat"
  proof -
    have "length (prob_flat ! k) = N + 1" if "k < ?R" for k
    proof -
      from decoder_forward_props(3)[OF c1, of k] that lmf obtain hv kv vv where
        p: "final_attn (bs_decoder st) hv kv vv (?mf ! k) = Inr (prob_flat ! k)" by auto
      from that emf lmf have lk: "length (?mf ! k) = N + 1" by (simp add: list_all_length)
      with tN have "1 < length (?mf ! k)" by simp
      from final_attn_length[OF p this] lk show ?thesis by simp
    qed
    with lpf show ?thesis by (simp add: list_all_length)
  qed
  \<comment> \<open>the view of the probabilities\<close>
  have "length (concat prob_flat) = ?bsz * Bp * (N + 1)"
    using concat_uniform_length[OF rpf] lpf by simp
  then obtain prob where c2: "view_beams ?bsz Bp (N + 1) prob_flat = Inr prob"
    by (simp add: view_beams_def)
  note vp = view_beams_props[OF c2 lpf]
  have flat_idx: "b * Bp + s < ?R" if "b < ?bsz" "s < Bp" for b s
  proof -
    have "b * Bp + s < b * Bp + Bp" using that by simp
    also have "\<dots> = Suc b * Bp" by simp
    also have "\<dots> \<le> ?bsz * Bp" using that by (intro mult_le_mono1) simp
    finally show ?thesis .
  qed
  have pe1: "length (prob ! b ! s) = N + 1" if "b < ?bsz" "s < Bp" for b s
    using vp(3)[OF that] rpf flat_idx[OF that] lpf by (simp add: list_all_length)
  \<comment> \<open>the selection\<close>
  let ?S = "map2 (\<lambda>ps ss. map2 (\<lambda>p s. map (\<lambda>q. score_add (log_t q) s) p) ps ss)
          prob (bs_sum_scores st)"
  have lS: "length ?S = ?bsz" using vp(1) ls by simp
  have lflat: "length (concat (?S ! b)) = Bp * (N + 1)" if b: "b < ?bsz" for b
  proof -
    let ?blocks = "map2 (\<lambda>p s. map (\<lambda>q. score_add (log_t q) s) p) (prob ! b)
        (bs_sum_scores st ! b)"
    from b rs ls have lsb: "length (bs_sum_scores st ! b) = Bp" by (simp add: list_all_length)
    have "list_all (\<lambda>r. length r = N + 1) ?blocks"
      using vp(2)[OF b] lsb pe1[OF b] by (auto simp: list_all_length)
    from concat_uniform_length[OF this] vp(2)[OF b] lsb
    have "length (concat ?blocks) = Bp * (N + 1)" by simp
    moreover have "?S ! b = ?blocks" using b vp(1) ls by simp
    ultimately show ?thesis by simp
  qed
  have "\<exists>tp. topk x B = Inr tp \<and> (length (snd tp) = B \<and> length (fst tp) = B \<and>
        (\<forall>i\<in>set (snd tp). i < Bp * (N + 1)))"
    if "x \<in> set (map concat ?S)" for x
  proof -
    from that obtain b where b: "b < length ?S" and x: "x = concat (?S ! b)"
      by (auto simp: in_set_conv_nth)
    from b have "b < ?bsz" unfolding lS .
    from lflat[OF this] x have lx: "length x = Bp * (N + 1)" by simp
    with BB have "B \<le> length x" by simp
    from topk_total[OF this] lx show ?thesis by simp
  qed
  from seq_e_map_total[of "map concat ?S" "\<lambda>r. topk r B"
      "\<lambda>tp. length (snd tp) = B \<and> length (fst tp) = B \<and> (\<forall>i\<in>set (snd tp). i < Bp * (N + 1))",
      OF this]
  obtain tops :: "(score list \<times> nat list) list" where
    c3: "seq_e (map (\<lambda>r. topk r B) (map concat ?S)) = Inr tops"
    and ptops: "list_all (\<lambda>tp. length (snd tp) = B \<and> length (fst tp) = B \<and>
        (\<forall>i\<in>set (snd tp). i < Bp * (N + 1))) tops"
    and ltops: "length tops = ?bsz" using lS by auto
  let ?top = "map (map (\<lambda>i. i div (N + 1))) (map snd tops)"
  let ?inb = "map2 (map2 (\<lambda>i j. i - j * (N + 1))) (map snd tops) ?top"
  have ltop: "length ?top = ?bsz" "length ?inb = ?bsz" using ltops by simp_all
  have rtop: "length (?top ! b) = B" "length (?inb ! b) = B" if b: "b < ?bsz" for b
    using b ltops ptops by (simp_all add: list_all_length)
  have etop: "?top ! b ! i < Bp" and einb: "?inb ! b ! i < N + 1"
    if b: "b < ?bsz" and i: "i < B" for b i
  proof -
    from b i ltops ptops have li: "length (snd (tops ! b)) = B"
      and "snd (tops ! b) ! i < Bp * (N + 1)"
      by (auto simp: list_all_length)
    then have d: "snd (tops ! b) ! i div (N + 1) < Bp" by (simp add: less_mult_imp_div_less)
    with b i ltops li show "?top ! b ! i < Bp" by simp
    have "snd (tops ! b) ! i - (snd (tops ! b) ! i div (N + 1)) * (N + 1) < N + 1"
      by (rule block_rest) simp
    with b i ltops li show "?inb ! b ! i < N + 1" by simp
  qed
  have wfi: "wf_beam_idx ?top ?bsz B Bp"
    unfolding wf_beam_idx_def using bsz0 ltop(1) rtop(1) etop
    by (auto simp: list_all_length)
  \<comment> \<open>masks and tours of the source beams\<close>
  have mb: "length (bs_mask st ! b) = Bp" "\<And>s. s < Bp \<Longrightarrow> length (bs_mask st ! b ! s) = N + 1"
    and tb: "length (bs_tours st ! b) = Bp" "\<And>s. s < Bp \<Longrightarrow> length (bs_tours st ! b ! s) = N"
    if b: "b < ?bsz" for b
    using b rm rt lm lt by (auto simp: list_all_length)
  have inset: "i < Bp" if "b < ?bsz" "i \<in> set (?top ! b)" for b i
  proof -
    from that(2) obtain k where "k < length (?top ! b)" "i = ?top ! b ! k"
      by (auto simp: in_set_conv_nth)
    with rtop(1)[OF that(1)] etop[OF that(1)] show ?thesis by simp
  qed
  let ?msrc = "map (\<lambda>b. map (\<lambda>i. bs_mask st ! b ! i) (?top ! b)) [0..<length ?top]"
  let ?tsrc = "map (\<lambda>b. map (\<lambda>i. bs_tours st ! b ! i) (?top ! b)) [0..<length ?top]"
  have c4: "gather_beams (bs_mask st) ?top = Inr ?msrc"
    using lm ltop(1) inset mb(1) by (intro gather_beams_wf) auto
  have c6: "gather_beams (bs_tours st) ?top = Inr ?tsrc"
    using lt ltop(1) inset tb(1) by (intro gather_beams_wf) auto
  have ms: "length ?msrc = ?bsz" "\<And>b. b < ?bsz \<Longrightarrow> length (?msrc ! b) = B"
    "\<And>b i. b < ?bsz \<Longrightarrow> i < B \<Longrightarrow> length (?msrc ! b ! i) = N + 1"
    using ltop(1) rtop(1) etop mb(2) by simp_all
  have ts: "length ?tsrc = ?bsz" "\<And>b. b < ?bsz \<Longrightarrow> length (?tsrc ! b) = B"
    "\<And>b i. b < ?bsz \<Longrightarrow> i < B \<Longrightarrow> length (?tsrc ! b ! i) = N"
    using ltop(1) rtop(1) etop tb(2) by simp_all
  have "\<exists>M. mark_visited ?msrc ?inb = Inr M"
  proof (rule mark_visited_total)
    fix b i assume "b < length ?msrc" "b < length ?inb" "i < length (?msrc ! b)"
      "i < length (?inb ! b)"
    with ms ltop rtop have b: "b < ?bsz" and i: "i < B" by auto
    from ms(3)[OF b i] einb[OF b i] show "?inb ! b ! i < length (?msrc ! b ! i)" by simp
  qed
  then obtain msk where c5: "mark_visited ?msrc ?inb = Inr msk" ..
  have "\<exists>T. write_step ?tsrc ?t ?inb = Inr T"
  proof (rule write_step_total)
    fix b i assume "b < length ?tsrc" "i < length (?tsrc ! b)"
    with ts have b: "b < ?bsz" and i: "i < B" by auto
    from ts(3)[OF b i] tN show "?t < length (?tsrc ! b ! i)" by simp
  qed
  then obtain trs where c7: "write_step ?tsrc ?t ?inb = Inr trs" ..
  \<comment> \<open>queries and caches\<close>
  have "\<exists>h. next_queries net h_encoder ?inb ?t = Inr h \<and> length h = length ?inb \<and>
           (\<forall>b<length ?inb. length (h ! b) = length (?inb ! b))"
  proof (rule next_queries_total)
    show "length ?inb = ?bsz" by (rule ltop(2))
    show "?t + 1 < length (PE net)" using tN pe by simp
    fix b i assume b: "b < length ?inb" and i: "i \<in> set (?inb ! b)"
    from b ltop(2) have b': "b < ?bsz" by simp
    from i obtain k where "k < length (?inb ! b)" "i = ?inb ! b ! k"
      by (auto simp: in_set_conv_nth)
    with rtop(2)[OF b'] einb[OF b'] have "i < N + 1" by simp
    with hrows b' show "i < length (h_encoder ! b)" by (simp add: list_all_length)
  qed
  then obtain hq where c8: "next_queries net h_encoder ?inb ?t = Inr hq"
    and lhq: "length hq = ?bsz" "\<And>b. b < ?bsz \<Longrightarrow> length (hq ! b) = B"
    using ltop(2) rtop(2) by auto
  from decoder_reorder_total[OF lay1 wfi] obtain dec' where
    c9: "decoder_reorder dec1 ?t ?top = Inr dec'"
    and lay': "list_all (\<lambda>lay. layer_ready lay (?bsz * B) (key_len_of (segm_len lay) ?t))
       (decoder_layers dec')"
    and fa': "final_attn dec' = final_attn dec1" by blast
  let ?st' = "\<lparr>bs_decoder = dec', bs_h_t = hq, bs_mask = msk, bs_tours = trs,
      bs_sum_scores = map fst tops,
      bs_K_att = (if ?t = 1 then repeat_interleave B Kt else bs_K_att st),
      bs_V_att = (if ?t = 1 then repeat_interleave B Vt else bs_V_att st)\<rparr>"
  have res: "beam_expand net N B Bp h_encoder Kt Vt ?t st = Inr ?st'"
    unfolding beam_expand_def Let_def
    by (simp only: c1 c2 c3 c4 c5 c6 c7 c8 c9 sum.case prod.case)
  \<comment> \<open>the shape of the new state\<close>
  have lmsk: "length msk = ?bsz" using mark_visited_props(1)[OF c5] ms(1) ltop(2) by simp
  have rmsk: "length (msk ! b) = B" if b: "b < ?bsz" for b
    using mark_visited_props(2)[OF c5, of b] b ms(1,2) ltop(2) rtop(2) by simp
  have emsk: "length (msk ! b ! i) = N + 1" if b: "b < ?bsz" and i: "i < B" for b i
  proof -
    from mark_visited_props(3)[OF c5, of b i] b i ms(1,2) ltop(2) rtop(2)
    have "msk ! b ! i = (?msrc ! b ! i)[?inb ! b ! i := True]" by simp
    with ms(3)[OF b i] show ?thesis by simp
  qed
  have ltrs: "length trs = ?bsz" using write_step_props(1)[OF c7] ts(1) ltop(2) by simp
  have rtrs: "length (trs ! b) = B" if b: "b < ?bsz" for b
    using write_step_props(2)[OF c7, of b] b ts(1,2) ltop(2) rtop(2) by simp
  have etrs: "length (trs ! b ! i) = N" if b: "b < ?bsz" and i: "i < B" for b i
  proof -
    from write_step_props(3)[OF c7, of b i] b i ts(1,2) ltop(2) rtop(2)
    have "trs ! b ! i = (?tsrc ! b ! i)[?t := ?inb ! b ! i]" by simp
    with ts(3)[OF b i] show ?thesis by simp
  qed
  have lsc: "length (map fst tops ! b) = B" if b: "b < ?bsz" for b
    using b ltops ptops by (simp add: list_all_length)
  have lKa: "length (if ?t = 1 then repeat_interleave B Kt else bs_K_att st) = ?bsz * B"
    and lVa: "length (if ?t = 1 then repeat_interleave B Vt else bs_V_att st) = ?bsz * B"
    using kb lK lV lKt lVt by (auto simp: length_repeat_interleave)
  have kKa: "list_all (\<lambda>r. \<forall>l. length (r l) = N + 1)
      (if ?t = 1 then repeat_interleave B Kt else bs_K_att st)"
    using kK kKt set_repeat_interleave[of B Kt] by (auto simp: list_all_iff)
  have "beam_shape N ?bsz ?t B ?st'"
    unfolding beam_shape_def
    using lhq lmsk rmsk emsk ltrs rtrs etrs ltops lsc lKa lVa lay' kKa
    by (simp add: list_all_length)
  with res show ?thesis by blast
qed

lemma start_query_total:
  assumes "list_all (\<lambda>r. length r = N + 1) h_encoder" "0 < length (PE net)"
  shows "\<exists>h. start_query net N h_encoder = Inr h \<and> length h = length h_encoder"
proof -
  have "\<exists>v. index_t (h_encoder ! i) (int (replicate (length h_encoder) N ! i)) = Inr v"
    if "i < length h_encoder" for i
    using assms(1) that by (simp add: index_t_def Let_def list_all_length)
  then have "\<exists>vs. seq_e (map2 (\<lambda>r i. index_t r (int i)) h_encoder
      (replicate (length h_encoder) N)) = Inr vs"
    by (intro seq_e_map2_total) simp
  then obtain hs where hs: "seq_e (map2 (\<lambda>r i. index_t r (int i)) h_encoder
      (replicate (length h_encoder) N)) = Inr hs" ..
  from seq_e_length[OF hs] have lhs: "length hs = length h_encoder" by simp
  from assms(2) obtain pe where pe: "index_t (PE net) 0 = Inr pe"
    by (auto simp: index_t_def Let_def)
  from hs pe lhs show ?thesis by (simp add: start_query_def gather_rows_def)
qed

lemma beam_step0_total:
  assumes wf: "wf_decode net N h_encoder Kt Vt dec" and N0: "0 < N"
  shows "\<exists>st. beam_step0 net N B h_encoder Kt Vt (decoder_reset dec) = Inr st \<and>
           beam_shape N (length h_encoder) 0 (min B N) st"
proof -
  let ?bsz = "length h_encoder" and ?Bt = "min B N" and ?dec0 = "decoder_reset dec"
  let ?m0 = "start_mask ?bsz N"
  from wf have bsz0: "0 < ?bsz" and hrows: "list_all (\<lambda>r. length r = N + 1) h_encoder"
    and lKt: "length Kt = ?bsz" and lVt: "length Vt = ?bsz" and pe: "N < length (PE net)"
    and kKt: "list_all (\<lambda>r. \<forall>l. length (r l) = N + 1) Kt"
    and pw: "list_all (\<lambda>lay. positive_window (segm_len lay)) (decoder_layers dec)"
    by (auto simp: wf_decode_def)
  have lm0: "length ?m0 = ?bsz" by (rule length_start_mask)
  have rm0: "length (?m0 ! b) = N + 1" if "b < ?bsz" for b
  proof -
    have "length ((replicate (N + 1) False)[N := True]) = N + 1"
      by (simp only: length_list_update length_replicate)
    with that show ?thesis unfolding start_mask_def by (simp only: nth_replicate)
  qed
  from pe have pe0: "0 < length (PE net)" by (cases "PE net") simp_all
  from start_query_total[OF hrows pe0] obtain h_start where
    c0: "start_query net N h_encoder = Inr h_start" and lhs: "length h_start = ?bsz" by blast
  have "\<exists>lay' out. layer_forward lay h (map (\<lambda>r. r l) Kt) (map (\<lambda>r. r l) Vt) ?m0
          = Inr (lay', out) \<and> length out = ?bsz \<and>
          layer_ready lay' ?bsz (key_len_of (segm_len lay') 0)"
    if "lay \<in> set (decoder_layers ?dec0)" "length h = ?bsz" for lay h l
  proof -
    from that(1) pw have "K_sa lay = None" "positive_window (segm_len lay)"
      by (auto simp: decoder_reset_def reset_selfatt_keys_values_def list_all_iff)
    from layer_forward_total_cold[OF this, of "map (\<lambda>r. r l) Kt" h "map (\<lambda>r. r l) Vt" ?m0]
      lKt lVt lm0 that(2)
    show ?thesis by simp
  qed
  moreover have "\<exists>p. final_attn ?dec0 h ((Kt ! b) (length (decoder_layers ?dec0)))
      ((Vt ! b) (length (decoder_layers ?dec0))) (?m0 ! b) = Inr p"
    if "b < ?bsz" for b h
  proof -
    from that kKt lKt have "length ((Kt ! b) (length (decoder_layers ?dec0))) = N + 1"
      by (simp add: list_all_length)
    with rm0[OF that] show ?thesis by (intro final_attn_total) simp
  qed
  ultimately obtain dec1 prob where
    c1: "decoder_forward ?dec0 h_start Kt Vt ?m0 = Inr (dec1, prob)"
    and lay1: "list_all (\<lambda>lay. layer_ready lay ?bsz (key_len_of (segm_len lay) 0))
       (decoder_layers dec1)"
    and fa1: "final_attn dec1 = final_attn ?dec0"
    using decoder_forward_total[of ?dec0 ?bsz Kt Vt ?m0
      "\<lambda>lay. layer_ready lay ?bsz (key_len_of (segm_len lay) 0)" h_start, OF _ lhs lKt lVt lm0]
    by blast
  have lp: "length prob = ?bsz" using decoder_forward_props(1)[OF c1] lm0 by simp
  have rp: "length (prob ! k) = N + 1" if "k < ?bsz" for k
  proof -
    from decoder_forward_props(3)[OF c1, of k] that lm0 obtain hv kv vv where
      p: "final_attn ?dec0 hv kv vv (?m0 ! k) = Inr (prob ! k)" by auto
    from rm0[OF that] N0 have "1 < length (?m0 ! k)" by simp
    from final_attn_length[OF p this] rm0[OF that] show ?thesis by simp
  qed
  have "\<exists>tp. topk (map log_t r) ?Bt = Inr tp \<and> (length (snd tp) = ?Bt \<and> length (fst tp) = ?Bt \<and>
        (\<forall>i\<in>set (snd tp). i < N + 1))"
    if "r \<in> set prob" for r
  proof -
    from that obtain k where "k < length prob" "r = prob ! k" by (auto simp: in_set_conv_nth)
    with lp rp have lr: "length (map log_t r) = N + 1" by simp
    then have "?Bt \<le> length (map log_t r)" by simp
    from topk_total[OF this] lr show ?thesis by simp
  qed
  from seq_e_map_total[of prob "\<lambda>r. topk (map log_t r) ?Bt"
      "\<lambda>tp. length (snd tp) = ?Bt \<and> length (fst tp) = ?Bt \<and> (\<forall>i\<in>set (snd tp). i < N + 1)",
      OF this]
  obtain tops :: "(score list \<times> nat list) list" where
    c3: "seq_e (map (\<lambda>r. topk (map log_t r) ?Bt) prob) = Inr tops"
    and ptops: "list_all (\<lambda>tp. length (snd tp) = ?Bt \<and> length (fst tp) = ?Bt \<and>
        (\<forall>i\<in>set (snd tp). i < N + 1)) tops"
    and ltops: "length tops = ?bsz" using lp by auto
  let ?idx = "map snd tops"
  have lidx: "length ?idx = ?bsz" using ltops by simp
  have ridx: "length (?idx ! b) = ?Bt" if "b < ?bsz" for b
    using that ltops ptops by (simp add: list_all_length)
  have eidx: "i < N + 1" if "b < ?bsz" "i \<in> set (?idx ! b)" for b i
    using that ltops ptops by (auto simp: list_all_length)
  have "\<exists>M. mark_visited (map (replicate ?Bt) ?m0) ?idx = Inr M"
  proof (rule mark_visited_total)
    fix b i assume b: "b < length (map (replicate ?Bt) ?m0)" and b': "b < length ?idx"
      and i: "i < length (map (replicate ?Bt) ?m0 ! b)" and i': "i < length (?idx ! b)"
    from b' lidx have bb: "b < ?bsz" by simp
    from i' have "?idx ! b ! i \<in> set (?idx ! b)" by (rule nth_mem)
    from eidx[OF bb this] have "?idx ! b ! i < N + 1" .
    moreover from bb i lm0 have "map (replicate ?Bt) ?m0 ! b ! i = ?m0 ! b" by simp
    ultimately show "?idx ! b ! i < length (map (replicate ?Bt) ?m0 ! b ! i)"
      using rm0[OF bb] by simp
  qed
  then obtain msk where c5: "mark_visited (map (replicate ?Bt) ?m0) ?idx = Inr msk" ..
  let ?t0 = "replicate ?bsz (replicate ?Bt (replicate N (0::nat)))"
  have "\<exists>T. write_step ?t0 0 ?idx = Inr T"
    by (rule write_step_total) (use N0 in simp)
  then obtain trs where c7: "write_step ?t0 0 ?idx = Inr trs" ..
  have "\<exists>h. next_queries net h_encoder ?idx 0 = Inr h \<and> length h = length ?idx \<and>
           (\<forall>b<length ?idx. length (h ! b) = length (?idx ! b))"
  proof (rule next_queries_total)
    show "length ?idx = ?bsz" by (rule lidx)
    show "0 + 1 < length (PE net)" using N0 pe by simp
    fix b i assume b: "b < length ?idx" and i: "i \<in> set (?idx ! b)"
    from b lidx have bb: "b < ?bsz" by simp
    from eidx[OF bb i] hrows bb show "i < length (h_encoder ! b)" by (simp add: list_all_length)
  qed
  then obtain hq where c8: "next_queries net h_encoder ?idx 0 = Inr hq"
    and lhq: "length hq = ?bsz" "\<And>b. b < ?bsz \<Longrightarrow> length (hq ! b) = ?Bt"
    using lidx ridx by auto
  from decoder_repeat_total[OF lay1, of ?Bt] obtain dec' where
    c9: "decoder_repeat dec1 ?Bt = Inr dec'"
    and lay': "list_all (\<lambda>lay. layer_ready lay (?bsz * ?Bt) (key_len_of (segm_len lay) 0))
       (decoder_layers dec')"
    and fa': "final_attn dec' = final_attn dec1" by blast
  let ?st' = "\<lparr>bs_decoder = dec', bs_h_t = hq, bs_mask = msk, bs_tours = trs,
      bs_sum_scores = map fst tops,
      bs_K_att = repeat_interleave ?Bt Kt, bs_V_att = repeat_interleave ?Bt Vt\<rparr>"
  have res: "beam_step0 net N B h_encoder Kt Vt ?dec0 = Inr ?st'"
    unfolding beam_step0_def Let_def
    by (simp only: c0 c1 c3 c5 c7 c8 c9 sum.case prod.case)
  have lmsk: "length msk = ?bsz" using mark_visited_props(1)[OF c5] lm0 lidx by simp
  have rmsk: "length (msk ! b) = ?Bt" if b: "b < ?bsz" for b
    using mark_visited_props(2)[OF c5, of b] b lm0 lidx ridx[OF b] by simp
  have emsk: "length (msk ! b ! i) = N + 1" if b: "b < ?bsz" and i: "i < ?Bt" for b i
  proof -
    from mark_visited_props(3)[OF c5, of b i] b i lm0 lidx ridx[OF b]
    have "msk ! b ! i = (?m0 ! b)[?idx ! b ! i := True]" by simp
    with rm0[OF b] show ?thesis by simp
  qed
  have ltrs: "length trs = ?bsz" using write_step_props(1)[OF c7] lidx by simp
  have rtrs: "length (trs ! b) = ?Bt" if b: "b < ?bsz" for b
    using write_step_props(2)[OF c7, of b] b lidx ridx[OF b] by simp
  have etrs: "length (trs ! b ! i) = N" if b: "b < ?bsz" and i: "i < ?Bt" for b i
  proof -
    from write_step_props(3)[OF c7, of b i] b i lidx ridx[OF b]
    have "trs ! b ! i = (replicate N 0)[0 := ?idx ! b ! i]" by simp
    then show ?thesis by simp
  qed
  have lsc: "length (map fst tops ! b) = ?Bt" if b: "b < ?bsz" for b
    using b ltops ptops by (simp add: list_all_length)
  have kKa: "list_all (\<lambda>r. \<forall>l. length (r l) = N + 1) (repeat_interleave ?Bt Kt)"
    using kKt set_repeat_interleave[of ?Bt Kt] by (auto simp: list_all_iff)
  have "beam_shape N ?bsz 0 ?Bt ?st'"
    unfolding beam_shape_def
    using lhq lmsk rmsk emsk ltrs rtrs etrs ltops lsc lKt lVt lay' kKa
    by (simp add: list_all_length length_repeat_interleave)
  with res show ?thesis by blast
qed

section \<open>The beam width schedule\<close>

lemma beam_loop_append:
  "beam_loop net N B h K V dec0 (ts @ us) sto =
     (case beam_loop net N B h K V dec0 ts sto of Inl e \<Rightarrow> Inl e
      | Inr sto' \<Rightarrow> beam_loop net N B h K V dec0 us sto')"
  by (induction ts arbitrary: sto) (simp_all split: sum.splits)

lemma beam_state_after_Suc:
  assumes "beam_state_after net N B h K V dec t = Inr (Some st)"
  shows "beam_state_after net N B h K V dec (Suc t) =
     map_sum id Some (beam_step net N B h K V (decoder_reset dec) (Suc t) (Some st))"
proof -
  have "[0..<Suc (Suc t)] = [0..<Suc t] @ [Suc t]" by simp
  then have "beam_state_after net N B h K V dec (Suc t) =
     (case beam_loop net N B h K V (decoder_reset dec) [0..<Suc t] None of Inl e \<Rightarrow> Inl e
      | Inr sto' \<Rightarrow> beam_loop net N B h K V (decoder_reset dec) [Suc t] sto')"
    unfolding beam_state_after_def by (simp only: beam_loop_append)
  with assms show ?thesis
    by (simp add: beam_state_after_def split: sum.splits)
qed

lemma beam_state_after_total:
  fixes t N B :: nat
  assumes wf: "wf_decode net N h Kt Vt dec" and tN: "t < N"
    and BB: "t \<noteq> 0 \<longrightarrow> B \<le> min B N * (N + 1)"
  shows "\<exists>st. beam_state_after net N B h Kt Vt dec t = Inr (Some st) \<and>
           beam_shape N (length h) t (if t = 0 then min B N else B) st"
  using tN BB
proof (induction t)
  case 0
  from beam_step0_total[OF wf, of B] 0 obtain st where
    "beam_step0 net N B h Kt Vt (decoder_reset dec) = Inr st"
    "beam_shape N (length h) 0 (min B N) st" by auto
  then show ?case by (simp add: beam_state_after_def beam_step_def)
next
  case (Suc t)
  let ?Bp = "if t = 0 then min B N else B"
  from Suc obtain st where
    a: "beam_state_after net N B h Kt Vt dec t = Inr (Some st)"
    and sh: "beam_shape N (length h) t ?Bp st" by auto
  have b1: "B \<le> ?Bp * (N + 1)" using Suc.prems(2) by simp
  have b2: "t \<noteq> 0 \<longrightarrow> ?Bp = B" by simp
  from beam_expand_total[OF sh wf Suc.prems(1) b1 b2] obtain st' where
    e: "beam_expand net N B ?Bp h Kt Vt (Suc t) st = Inr st'"
    and sh': "beam_shape N (length h) (Suc t) B st'" by blast
  have "beam_step net N B h Kt Vt (decoder_reset dec) (Suc t) (Some st) = Inr st'"
    using e by (cases "t = 0") (simp_all add: beam_step_def)
  with beam_state_after_Suc[OF a] sh' show ?case by simp
qed

lemma width_bound:
  fixes N B :: nat
  assumes "B \<le> N * (N - 1)"
  shows "B \<le> min B N * (N + 1)"
proof (cases "B \<le> N")
  case True
  then show ?thesis by (simp add: min_def)
next
  case False
  have "N * (N - 1) \<le> N * (N + 1)" by (intro mult_le_mono2) simp
  with assms False show ?thesis by (simp add: min_def)
qed

lemma example_uniform_wf_decode:
  "wf_decode example_uniform 3 (encode example_uniform [[(0, 0), (1, 0), (2, 0)]])
     (map (WK_att_decoder example_uniform) (encode example_uniform [[(0, 0), (1, 0), (2, 0)]]))
     (map (WV_att_decoder example_uniform) (encode example_uniform [[(0, 0), (1, 0), (2, 0)]]))
     (decoder example_uniform)"
  by (simp add: wf_decode_def example_uniform_def example_net_def example_decoder_layer_def
      positive_window_def unit_vec_def Let_def)

lemma example_beam_after_step1:
  "map_sum id (map_option bs_tours)
     (beam_state_after example_uniform 3 5 (encode example_uniform [[(0, 0), (1, 0), (2, 0)]])
        (map (WK_att_decoder example_uniform) (encode example_uniform [[(0, 0), (1, 0), (2, 0)]]))
        (map (WV_att_decoder example_uniform) (encode example_uniform [[(0, 0), (1, 0), (2, 0)]]))
        (decoder example_uniform) 1)
   = Inr (Some [[[0, 1, 0], [0, 2, 0], [1, 0, 0], [1, 2, 0], [2, 0, 0]]])"
  by (simp add: beam_state_after_def example_uniform_def eval_rules example_final)

lemma example_beam_after_step0:
  "map_sum id (map_option bs_tours)
     (beam_state_after example_uniform 3 5
        (encode example_uniform [[(0, 0), (1, 0), (2, 0)]])
        (map (WK_att_decoder example_uniform) (encode example_uniform [[(0, 0), (1, 0), (2, 0)]]))
        (map (WV_att_decoder example_uniform) (encode example_uniform [[(0, 0), (1, 0), (2, 0)]]))
        (decoder example_uniform) 0)
   = Inr (Some [[[0, 0, 0], [1, 0, 0], [2, 0, 0]]])"
  by (simp add: beam_state_after_def example_uniform_def eval_rules example_final)

text \<open>
  Claim C4. A decode is well formed when the encoder output has at least one batch row,
  every row has \<open>N + 1\<close> vectors, the cross-attention operands have one entry per batch
  row with \<open>N + 1\<close> key vectors in every block, the positional encodings reach index \<open>N\<close>
  and no layer has a window of length 0. In such a decode over \<open>N\<close> nodes
  with requested width \<open>B\<close>, the beam search reaches every step \<open>t < N\<close> without an error
  when \<open>t = 0\<close> or \<open>B \<le> N * (N-1)\<close>, and every batch row of the state after the step has
  \<open>min B N\<close> beams for \<open>t = 0\<close>, whatever \<open>B\<close>, and exactly \<open>B\<close> beams for \<open>t \<ge> 1\<close>: in the
  tours, in the masks and in the cumulated scores.
\<close>

theorem beam_width_schedule:
  fixes t N B :: nat
  assumes "wf_decode net N h Kt Vt dec" and "t < N" and "t = 0 \<or> B \<le> N * (N - 1)"
  shows "\<exists>st. beam_state_after net N B h Kt Vt dec t = Inr (Some st) \<and>
           beam_count st (if t = 0 then min B N else B)"
proof -
  from assms(3) width_bound[of B N] have "t \<noteq> 0 \<longrightarrow> B \<le> min B N * (N + 1)" by blast
  from beam_state_after_total[OF assms(1,2) this] obtain st where
    a: "beam_state_after net N B h Kt Vt dec t = Inr (Some st)" by blast
  from beam_state_after_count[OF a] a show ?thesis by blast
qed

text \<open>
  On three nodes with \<open>B = 5\<close>, step 0 keeps the three nodes as first nodes and step 1
  keeps five of the six tours of two nodes.
\<close>

theorem beam_width_schedule_witness:
  "wf_decode example_uniform 3
        (encode example_uniform [[(0, 0), (1, 0), (2, 0)]])
        (map (WK_att_decoder example_uniform) (encode example_uniform [[(0, 0), (1, 0), (2, 0)]]))
        (map (WV_att_decoder example_uniform) (encode example_uniform [[(0, 0), (1, 0), (2, 0)]]))
        (decoder example_uniform) \<and>
   (1::nat) < 3 \<and> (5::nat) \<le> 3 * (3 - 1) \<and>
   map_sum id (map_option bs_tours)
     (beam_state_after example_uniform 3 5
        (encode example_uniform [[(0, 0), (1, 0), (2, 0)]])
        (map (WK_att_decoder example_uniform) (encode example_uniform [[(0, 0), (1, 0), (2, 0)]]))
        (map (WV_att_decoder example_uniform) (encode example_uniform [[(0, 0), (1, 0), (2, 0)]]))
        (decoder example_uniform) 1)
   = Inr (Some [[[0, 1, 0], [0, 2, 0], [1, 0, 0], [1, 2, 0], [2, 0, 0]]]) \<and>
   (\<exists>st. beam_state_after example_uniform 3 5
        (encode example_uniform [[(0, 0), (1, 0), (2, 0)]])
        (map (WK_att_decoder example_uniform) (encode example_uniform [[(0, 0), (1, 0), (2, 0)]]))
        (map (WV_att_decoder example_uniform) (encode example_uniform [[(0, 0), (1, 0), (2, 0)]]))
        (decoder example_uniform) 1 = Inr (Some st) \<and> beam_count st 5)"
proof -
  have b: "(1::nat) = 0 \<or> (5::nat) \<le> 3 * (3 - 1)" by simp
  have t: "(1::nat) < 3" by simp
  from beam_width_schedule [OF example_uniform_wf_decode t b]
  have "\<exists>st. beam_state_after example_uniform 3 5
        (encode example_uniform [[(0, 0), (1, 0), (2, 0)]])
        (map (WK_att_decoder example_uniform) (encode example_uniform [[(0, 0), (1, 0), (2, 0)]]))
        (map (WV_att_decoder example_uniform) (encode example_uniform [[(0, 0), (1, 0), (2, 0)]]))
        (decoder example_uniform) 1 = Inr (Some st) \<and> beam_count st 5"
    by simp
  with example_uniform_wf_decode example_beam_after_step1 show ?thesis by simp
qed

end
